theory Spec2Isabelle
  imports Complex_Main "HOL-Library.AList" "HOL-Library.Multiset"
begin

section \<open>Numbers, dictionaries and errors\<close>

text \<open>
  The program computes with Python floats. They are modelled by exact rationals: every
  arithmetic operation is the exact one, and \<open>round(x, ndigits)\<close> rounds the exact value
  to the nearest multiple of \<open>10^-ndigits\<close>, a tie going to the even neighbour (Python
  rounds the value a float holds half to even). Binary representation error, overflow,
  infinities and NaN are outside this model.

  The model and the program agree wherever no value that is rounded lies within the
  representation error of a double of a half cent. They can differ where one does: a
  double holds a value slightly off the decimal it was written as, so what is a tie for
  the rational may fall to either side for the double, and the difference of a double
  from a rounded share that is a half cent in the rationals may round to a whole cent. In
  particular the redistribution loop of the splits, run on an amount with a remainder of
  exactly half a cent, can step past the amount and on to its cap of 1000 steps, where
  the model stops at once. The theorems on the sum of a split are therefore stated for
  amounts that are whole numbers of cents, where every difference the loop rounds is a
  whole number of cents up to representation error, and never near a tie.

  A Python \<open>dict\<close> is an association list in insertion order; \<open>AList.update\<close> replaces
  the value of a key that is present and appends a key that is absent, as assignment to
  \<open>d[k]\<close> does. The keys of a dictionary are distinct.

  Every exception the modelled code raises is a value of \<open>error\<close>. The three
  \<open>ValueError\<close>s of the program are told apart by their message.
\<close>

type_synonym ('k, 'v) dict = "('k \<times> 'v) list"

datatype value_error =
    Exact_split_totals rat rat
  | All_shares_must_be_positive
  | Unknown_split_strategy string

datatype error = ValueError value_error | ZeroDivisionError | IndexError

definition keys :: "('k, 'v) dict \<Rightarrow> 'k list" where
  "keys d = map fst d"

definition values_of :: "('k, 'v) dict \<Rightarrow> 'v list" where
  "values_of d = map snd d"

definition get_default :: "('k, 'v) dict \<Rightarrow> 'k \<Rightarrow> 'v \<Rightarrow> 'v" where
  "get_default d k dflt = (case map_of d k of None \<Rightarrow> dflt | Some v \<Rightarrow> v)"

subsection \<open>core/utils/money.py\<close>

definition EPS :: rat where
  "EPS = 1 / 1000000"

definition round_half_even :: "rat \<Rightarrow> int" where
  "round_half_even x =
     (let f = \<lfloor>x\<rfloor>; d = x - of_int f
      in if d < 1 / 2 then f
         else if 1 / 2 < d then f + 1
         else if even f then f else f + 1)"

definition py_round :: "rat \<Rightarrow> nat \<Rightarrow> rat" where
  "py_round x ndigits = of_int (round_half_even (x * 10 ^ ndigits)) / 10 ^ ndigits"

definition qround :: "rat \<Rightarrow> rat" where
  "qround x = (let v = py_round (x + 0) 2 in if \<bar>v\<bar> < EPS then 0 else v)"

section \<open>core/models/splits.py\<close>

text \<open>
  The \<open>while\<close> loop that \<open>EqualSplit.split\<close> and \<open>ShareSplit.split\<close> both contain,
  with the same text: while the rounded difference is a cent or more and fewer than 1000
  steps were made, one share, chosen round robin, moves by \<open>step\<close>.
\<close>

function adjust_loop ::
  "rat \<Rightarrow> nat \<Rightarrow> rat \<Rightarrow> rat list \<Rightarrow> rat \<Rightarrow> nat \<Rightarrow> error + rat list" where
  "adjust_loop amount n step shares diff i =
     (if 1 / 100 - EPS \<le> \<bar>diff\<bar> \<and> i < 1000 then
        (if n = 0 then Inl ZeroDivisionError
         else
           let idx = i mod n in
           if length shares \<le> idx then Inl IndexError
           else
             let shares' = shares[idx := qround (shares ! idx + step)];
                 diff' = qround (amount - sum_list shares')
             in adjust_loop amount n step shares' diff' (i + 1))
      else Inr shares)"
  by pat_completeness auto
termination
  by (relation "measure (\<lambda>(amount, n, step, shares, diff, i). 1000 - i)") auto

declare adjust_loop.simps [simp del]

definition EqualSplit_split :: "rat \<Rightarrow> (string, rat) dict \<Rightarrow> error + (string, rat) dict" where
  "EqualSplit_split amount participants =
     (let users = keys participants;
          n = length users
      in if n = 0 then Inl ZeroDivisionError
         else
           let base = amount / of_nat n;
               shares = map (\<lambda>_. qround base) users;
               diff = qround (amount - sum_list shares);
               step = (if 0 < diff then 1 / 100 else - (1 / 100))
           in case adjust_loop amount n step shares diff 0 of
                Inl e \<Rightarrow> Inl e
              | Inr shares' \<Rightarrow> Inr (zip users shares'))"

definition ExactSplit_split :: "rat \<Rightarrow> (string, rat) dict \<Rightarrow> error + (string, rat) dict" where
  "ExactSplit_split amount participants =
     (let total = sum_list (values_of participants)
      in if 1 / 100 + EPS < \<bar>total - amount\<bar>
         then Inl (ValueError (Exact_split_totals total amount))
         else Inr (map (\<lambda>(name, v). (name, qround v)) participants))"

definition ShareSplit_split :: "rat \<Rightarrow> (string, rat) dict \<Rightarrow> error + (string, rat) dict" where
  "ShareSplit_split amount participants =
     (let weights = participants
      in if list_ex (\<lambda>w. w \<le> 0) (values_of weights)
         then Inl (ValueError All_shares_must_be_positive)
         else
           let total_w = sum_list (values_of weights)
           in if weights \<noteq> [] \<and> total_w = 0 then Inl ZeroDivisionError
              else
                let raw = map (\<lambda>(k, w). (k, amount * (w / total_w))) weights;
                    users = keys raw;
                    shares = map (\<lambda>(u, r). qround r) raw;
                    diff = qround (amount - sum_list shares);
                    step = (if 0 < diff then 1 / 100 else - (1 / 100))
                in case adjust_loop amount (length users) step shares diff 0 of
                     Inl e \<Rightarrow> Inl e
                   | Inr shares' \<Rightarrow> Inr (zip users shares'))"

section \<open>core/models/expense.py\<close>

text \<open>
  A \<open>datetime\<close> is modelled by its position on the time line (an integer count of
  microseconds); only the order of two timestamps is ever used.
\<close>

type_synonym datetime = int

datatype SplitStrategy = EqualSplit | ExactSplit | ShareSplit

definition split :: "SplitStrategy \<Rightarrow> rat \<Rightarrow> (string, rat) dict \<Rightarrow> error + (string, rat) dict" where
  "split strategy amount participants =
     (case strategy of
        EqualSplit \<Rightarrow> EqualSplit_split amount participants
      | ExactSplit \<Rightarrow> ExactSplit_split amount participants
      | ShareSplit \<Rightarrow> ShareSplit_split amount participants)"

record Expense =
  e_id :: string
  e_description :: string
  e_amount :: rat
  e_payer :: string
  e_participants :: "(string, rat) dict"
  e_split_strategy :: SplitStrategy
  e_notes :: string
  e_date :: datetime
  e_group_id :: "string option"

record Settlement =
  s_id :: string
  s_payer :: string
  s_payee :: string
  s_amount :: rat
  s_description :: string
  s_date :: datetime
  s_notes :: string

definition allocations :: "Expense \<Rightarrow> error + (string, rat) dict" where
  "allocations ex = split (e_split_strategy ex) (e_amount ex) (e_participants ex)"

section \<open>core/models/ledger.py\<close>

text \<open>
  The balance table is a \<open>defaultdict\<close> of \<open>defaultdict(float)\<close>: reading
  \<open>balance[a][b]\<close> for an update creates the row and the entry (at 0.0) when they are
  absent. \<open>update_entry\<close> is the augmented assignment \<open>balance[a][b] op= x\<close>, with
  \<open>f\<close> the operation on the current value.
\<close>

type_synonym balance = "(string, (string, rat) dict) dict"

definition update_entry :: "balance \<Rightarrow> string \<Rightarrow> string \<Rightarrow> (rat \<Rightarrow> rat) \<Rightarrow> balance" where
  "update_entry bal a b f =
     (let row = get_default bal a [];
          cur = get_default row b 0
      in AList.update a (AList.update b (f cur) row) bal)"

definition apply_expense :: "balance \<Rightarrow> Expense \<Rightarrow> error + balance" where
  "apply_expense bal ex =
     (case allocations ex of
        Inl e \<Rightarrow> Inl e
      | Inr alloc \<Rightarrow>
          Inr (fold (\<lambda>(user, owed) b.
                       if user = e_payer ex then b
                       else update_entry b user (e_payer ex) (\<lambda>v. v + owed))
                 alloc bal))"

definition apply_settlement :: "balance \<Rightarrow> Settlement \<Rightarrow> balance" where
  "apply_settlement bal st = update_entry bal (s_payer st) (s_payee st) (\<lambda>v. v - s_amount st)"

definition net_for :: "balance \<Rightarrow> string \<Rightarrow> (string, rat) dict" where
  "net_for bal me =
     (let result1 =
            fold (\<lambda>(other, amt) result.
                    if 1 / 1000000000 < \<bar>amt\<bar> then AList.update other amt result else result)
              (get_default bal me []) [];
          result2 =
            fold (\<lambda>(other, mp) result.
                    if other = me then result
                    else
                      let amt = get_default mp me 0
                      in if 1 / 1000000000 < \<bar>amt\<bar>
                         then AList.update other (get_default result other 0 - amt) result
                         else result)
              bal result1
      in map (\<lambda>(k, v). (k, py_round v 2)) result2)"

section \<open>core/services/manager.py\<close>

text \<open>
  The persisted records are the JSON dictionaries of the cache. Their \<open>date\<close> field is
  taken as already parsed; the split strategy is the class name, a string.
\<close>

record ExpenseData =
  d_id :: string
  d_description :: string
  d_amount :: rat
  d_payer :: string
  d_participants :: "(string, rat) dict"
  d_split_strategy :: string
  d_notes :: "string option"
  d_date :: datetime
  d_group_id :: "string option"

record SettlementData =
  sd_id :: string
  sd_payer :: string
  sd_payee :: string
  sd_amount :: rat
  sd_description :: "string option"
  sd_date :: datetime
  sd_notes :: "string option"

record CacheService =
  expenses :: "ExpenseData list"
  settlements :: "SettlementData list"

definition list_expenses :: "CacheService \<Rightarrow> ExpenseData list" where
  "list_expenses c = expenses c"

definition list_settlements :: "CacheService \<Rightarrow> SettlementData list" where
  "list_settlements c = settlements c"

record ExpenseManager =
  cache :: CacheService
  ledger :: balance

definition strategy_map :: "string \<Rightarrow> SplitStrategy option" where
  "strategy_map name =
     (if name = ''EqualSplit'' then Some EqualSplit
      else if name = ''ExactSplit'' then Some ExactSplit
      else if name = ''ShareSplit'' then Some ShareSplit
      else None)"

definition deserialize_expense :: "ExpenseData \<Rightarrow> error + Expense" where
  "deserialize_expense data =
     (let strat_name = d_split_strategy data
      in case strategy_map strat_name of
           None \<Rightarrow> Inl (ValueError (Unknown_split_strategy strat_name))
         | Some strat \<Rightarrow>
             Inr \<lparr> e_id = d_id data,
                   e_description = d_description data,
                   e_amount = d_amount data,
                   e_payer = d_payer data,
                   e_participants = d_participants data,
                   e_split_strategy = strat,
                   e_notes = (case d_notes data of None \<Rightarrow> [] | Some n \<Rightarrow> n),
                   e_date = d_date data,
                   e_group_id = d_group_id data \<rparr>)"

definition deserialize_settlement :: "SettlementData \<Rightarrow> Settlement" where
  "deserialize_settlement data =
     \<lparr> s_id = sd_id data,
       s_payer = sd_payer data,
       s_payee = sd_payee data,
       s_amount = sd_amount data,
       s_description = (case sd_description data of None \<Rightarrow> [] | Some n \<Rightarrow> n),
       s_date = sd_date data,
       s_notes = (case sd_notes data of None \<Rightarrow> [] | Some n \<Rightarrow> n) \<rparr>"

text \<open>
  The list comprehension \<open>[self._deserialize_expense(d) for d in ...]\<close>: the first
  record that raises ends it.
\<close>

fun deserialize_expenses :: "ExpenseData list \<Rightarrow> error + Expense list" where
  "deserialize_expenses [] = Inr []"
| "deserialize_expenses (d # ds) =
     (case deserialize_expense d of
        Inl e \<Rightarrow> Inl e
      | Inr x \<Rightarrow>
          (case deserialize_expenses ds of
             Inl e \<Rightarrow> Inl e
           | Inr xs \<Rightarrow> Inr (x # xs)))"

datatype event = expense Expense | settlement Settlement

text \<open>
  The timeline as \<open>rebuild_ledger\<close> builds it before sorting: every expense, then every
  settlement, each with its date.
\<close>

definition merge_timeline :: "Expense list \<Rightarrow> Settlement list \<Rightarrow> (datetime \<times> event) list" where
  "merge_timeline exps sets =
     map (\<lambda>e. (e_date e, expense e)) exps @ map (\<lambda>s. (s_date s, settlement s)) sets"

text \<open>
  The final loop of \<open>rebuild_ledger\<close>. An exception of \<open>apply_expense\<close> leaves the
  manager with the ledger as the events before it made it.
\<close>

fun apply_timeline :: "ExpenseManager \<Rightarrow> (datetime \<times> event) list \<Rightarrow> error option \<times> ExpenseManager" where
  "apply_timeline m [] = (None, m)"
| "apply_timeline m ((_, expense obj) # rest) =
     (case apply_expense (ledger m) obj of
        Inl err \<Rightarrow> (Some err, m)
      | Inr bal \<Rightarrow> apply_timeline (m\<lparr>ledger := bal\<rparr>) rest)"
| "apply_timeline m ((_, settlement obj) # rest) =
     apply_timeline (m\<lparr>ledger := apply_settlement (ledger m) obj\<rparr>) rest"

text \<open>
  \<open>rebuild_ledger\<close> returns the exception it raised, if any, and the manager as it is
  left. \<open>list.sort\<close> is stable; so is \<open>sort_key\<close>.
\<close>

definition rebuild_ledger :: "ExpenseManager \<Rightarrow> error option \<times> ExpenseManager" where
  "rebuild_ledger m =
     (let m1 = m\<lparr>ledger := []\<rparr>
      in case deserialize_expenses (list_expenses (cache m1)) of
           Inl err \<Rightarrow> (Some err, m1)
         | Inr exps \<Rightarrow>
             let sets = map deserialize_settlement (list_settlements (cache m1));
                 timeline = sort_key fst (merge_timeline exps sets)
             in apply_timeline m1 timeline)"

section \<open>Reading the timeline\<close>

text \<open>
  What applying a timeline in order means, said without the loop of \<open>rebuild_ledger\<close>:
  \<open>apply_event ev bal\<close> is the balance table after the one event \<open>ev\<close>, as
  \<open>Ledger.apply_expense\<close> or \<open>Ledger.apply_settlement\<close> leaves it (an expense whose
  allocation raises leaves it as it was), and \<open>raises ev\<close> is the exception with which
  the allocation of \<open>ev\<close> fails, if it does. Applying the events of \<open>tline\<close> in order to
  the balance \<open>bal\<close> is then \<open>fold apply_event tline bal\<close>.
\<close>

definition apply_event :: "datetime \<times> event \<Rightarrow> balance \<Rightarrow> balance" where
  "apply_event ev bal =
     (case snd ev of
        expense obj \<Rightarrow> (case apply_expense bal obj of Inl err \<Rightarrow> bal | Inr bal' \<Rightarrow> bal')
      | settlement obj \<Rightarrow> apply_settlement bal obj)"

definition raises :: "datetime \<times> event \<Rightarrow> error option" where
  "raises ev =
     (case snd ev of
        expense obj \<Rightarrow> (case allocations obj of Inl err \<Rightarrow> Some err | Inr alloc \<Rightarrow> None)
      | settlement obj \<Rightarrow> None)"

section \<open>Reading the balance table\<close>

text \<open>
  \<open>entry bal a b\<close> is the stored entry \<open>balance[a][b]\<close>, if there is one;
  \<open>owes bal a b\<close> is its value, an absent entry counting as zero. A table is well
  formed when it is a dictionary of dictionaries: no key twice among the rows, no key
  twice in a row. It has no self balance when no row has an entry under its own key.
\<close>

definition entry :: "balance \<Rightarrow> string \<Rightarrow> string \<Rightarrow> rat option" where
  "entry bal a b = (case map_of bal a of None \<Rightarrow> None | Some row \<Rightarrow> map_of row b)"

definition owes :: "balance \<Rightarrow> string \<Rightarrow> string \<Rightarrow> rat" where
  "owes bal a b = get_default (get_default bal a []) b 0"

definition wf_balance :: "balance \<Rightarrow> bool" where
  "wf_balance bal = (distinct (keys bal) \<and> list_all (\<lambda>(a, row). distinct (keys row)) bal)"

definition no_self_balance :: "balance \<Rightarrow> bool" where
  "no_self_balance bal = list_all (\<lambda>(a, row). map_of row a = None) bal"

section \<open>Amounts in cents\<close>

text \<open>
  \<open>cents k\<close> is the amount of \<open>k\<close> cents: what \<open>qround\<close> returns is always of this form.
\<close>

definition cents :: "int \<Rightarrow> rat" where
  "cents k = of_int k / 100"

section \<open>Example data\<close>

text \<open>
  The expenses and ledgers at which the theorems below are instantiated.
\<close>

definition ex_dinner :: Expense where
  "ex_dinner = \<lparr> e_id = ''e1'', e_description = ''Dinner'', e_amount = 90, e_payer = ''you'',
     e_participants = [(''you'', 1), (''sam'', 1), (''lee'', 1)], e_split_strategy = EqualSplit,
     e_notes = [], e_date = 1, e_group_id = None \<rparr>"

definition ex_lunch :: Expense where
  "ex_lunch = \<lparr> e_id = ''e2'', e_description = ''Lunch'', e_amount = 60, e_payer = ''B'',
     e_participants = [(''A'', 1), (''B'', 1)], e_split_strategy = EqualSplit,
     e_notes = [], e_date = 1, e_group_id = None \<rparr>"

definition ex_taxi :: Expense where
  "ex_taxi = \<lparr> e_id = ''e3'', e_description = ''Taxi'', e_amount = 60, e_payer = ''A'',
     e_participants = [(''A'', 1), (''B'', 1)], e_split_strategy = EqualSplit,
     e_notes = [], e_date = 2, e_group_id = None \<rparr>"

definition ledger_cross :: balance where
  "ledger_cross = [(''A'', [(''B'', 30)]), (''B'', [(''A'', 30)])]"

definition ledger_dinner :: balance where
  "ledger_dinner = [(''sam'', [(''you'', 30)]), (''lee'', [(''you'', 30)])]"

definition cache_demo :: CacheService where
  "cache_demo = \<lparr> expenses =
       [\<lparr> d_id = ''e1'', d_description = ''Dinner'', d_amount = 90, d_payer = ''you'',
          d_participants = [(''you'', 1), (''sam'', 1), (''lee'', 1)],
          d_split_strategy = ''EqualSplit'', d_notes = Some [], d_date = 1, d_group_id = None \<rparr>,
        \<lparr> d_id = ''e2'', d_description = ''Cinema'', d_amount = 30, d_payer = ''sam'',
          d_participants = [(''you'', 10), (''sam'', 20)],
          d_split_strategy = ''ExactSplit'', d_notes = Some [], d_date = 3, d_group_id = None \<rparr>],
     settlements =
       [\<lparr> sd_id = ''s1'', sd_payer = ''sam'', sd_payee = ''you'', sd_amount = 20,
          sd_description = Some ''Partial payback'', sd_date = 2, sd_notes = Some [] \<rparr>,
        \<lparr> sd_id = ''s2'', sd_payer = ''lee'', sd_payee = ''you'', sd_amount = 30,
          sd_description = None, sd_date = 3, sd_notes = None \<rparr>] \<rparr>"

definition cache_bad :: CacheService where
  "cache_bad = \<lparr> expenses =
       [\<lparr> d_id = ''e1'', d_description = ''Dinner'', d_amount = 90, d_payer = ''you'',
          d_participants = [(''you'', 1), (''sam'', 1), (''lee'', 1)],
          d_split_strategy = ''EqualSplit'', d_notes = Some [], d_date = 1, d_group_id = None \<rparr>,
        \<lparr> d_id = ''e2'', d_description = ''Cinema'', d_amount = 30, d_payer = ''sam'',
          d_participants = [(''you'', 1), (''sam'', 2)],
          d_split_strategy = ''PercentSplit'', d_notes = Some [], d_date = 3, d_group_id = None \<rparr>],
     settlements = [] \<rparr>"


definition ex_cinema :: Expense where
  "ex_cinema = \<lparr> e_id = ''e2'', e_description = ''Cinema'', e_amount = 50, e_payer = ''sam'',
     e_participants = [(''you'', 20), (''sam'', 29)], e_split_strategy = ExactSplit,
     e_notes = [], e_date = 2, e_group_id = None \<rparr>"

text \<open>
  A cache whose second event in time, the cinema of date 2, has exact weights that total
  49 for an amount of 50; the taxi of date 3 is stored before it.
\<close>

definition cache_mismatch :: CacheService where
  "cache_mismatch = \<lparr> expenses =
       [\<lparr> d_id = ''e1'', d_description = ''Dinner'', d_amount = 90, d_payer = ''you'',
          d_participants = [(''you'', 1), (''sam'', 1), (''lee'', 1)],
          d_split_strategy = ''EqualSplit'', d_notes = Some [], d_date = 1, d_group_id = None \<rparr>,
        \<lparr> d_id = ''e3'', d_description = ''Taxi'', d_amount = 60, d_payer = ''sam'',
          d_participants = [(''you'', 1), (''sam'', 1)],
          d_split_strategy = ''EqualSplit'', d_notes = Some [], d_date = 3, d_group_id = None \<rparr>,
        \<lparr> d_id = ''e2'', d_description = ''Cinema'', d_amount = 50, d_payer = ''sam'',
          d_participants = [(''you'', 20), (''sam'', 29)],
          d_split_strategy = ''ExactSplit'', d_notes = Some [], d_date = 2, d_group_id = None \<rparr>],
     settlements = [] \<rparr>"

text \<open>
  Participants of the splits: exact weights one cent over an amount of 50.00, exact
  weights of four tenths of a cent that total 0.02, and 3000 participants with the keys
  \<open>u\<close>, \<open>uu\<close>, \<open>uuu\<close> and so on.
\<close>

definition weights_near :: "(string, rat) dict" where
  "weights_near = [(''you'', 20), (''other'', 3001 / 100)]"

definition weights_mills :: "(string, rat) dict" where
  "weights_mills = [(''a'', 4 / 1000), (''b'', 4 / 1000), (''c'', 4 / 1000), (''d'', 4 / 1000),
                    (''e'', 4 / 1000)]"

definition crowd :: "(string, rat) dict" where
  "crowd = map (\<lambda>i. (replicate (Suc i) CHR ''u'', 1)) [0..<3000]"

section \<open>Properties of the split strategies\<close>

lemma adjust_loop_length:
  "n = length shares \<Longrightarrow> 0 < n \<Longrightarrow>
   \<exists>shares'. adjust_loop amount n step shares diff i = Inr shares' \<and> length shares' = n"
proof (induction amount n step shares diff i rule: adjust_loop.induct)
  case (1 amount n step shares diff i)
  show ?case
  proof (cases "1 / 100 - EPS \<le> \<bar>diff\<bar> \<and> i < 1000")
    case True
    let ?idx = "i mod n"
    let ?s = "shares[?idx := qround (shares ! ?idx + step)]"
    have "?idx < n" using "1.prems" by simp
    then have idx: "\<not> length shares \<le> ?idx" using "1.prems" by linarith
    have n0: "n \<noteq> 0" using "1.prems" by simp
    have "\<exists>shares'. adjust_loop amount n step ?s (qround (amount - sum_list ?s)) (i + 1) = Inr shares'
            \<and> length shares' = n"
      using "1.IH"[OF True n0 refl idx refl refl] "1.prems" by simp
    then show ?thesis
      using True idx n0 by (subst adjust_loop.simps) (simp add: Let_def)
  next
    case False
    then show ?thesis using "1.prems" by (subst adjust_loop.simps) auto
  qed
qed

text \<open>
  C10. \<open>EqualSplit.split\<close> divides by the number of participants without a guard: on the
  empty mapping it raises \<open>ZeroDivisionError\<close>; on every non-empty mapping it returns,
  and the allocation has exactly the keys of the participants, in their order.
\<close>

theorem EqualSplit_split_total:
  "EqualSplit_split amount [] = Inl ZeroDivisionError \<and>
   (participants \<noteq> [] \<longrightarrow>
      (\<exists>alloc. EqualSplit_split amount participants = Inr alloc \<and> keys alloc = keys participants))"
proof (intro conjI impI)
  show "EqualSplit_split amount [] = Inl ZeroDivisionError"
    by (simp add: EqualSplit_split_def keys_def)
next
  assume ne: "participants \<noteq> []"
  let ?users = "keys participants"
  let ?n = "length ?users"
  let ?shares = "map (\<lambda>_. qround (amount / of_nat ?n)) ?users"
  let ?diff = "qround (amount - sum_list ?shares)"
  let ?step = "if 0 < ?diff then 1 / 100 else - (1 / 100) :: rat"
  have n: "0 < ?n" using ne by (simp add: keys_def)
  obtain shares' where s: "adjust_loop amount ?n ?step ?shares ?diff 0 = Inr shares'"
    and l: "length shares' = ?n"
    using adjust_loop_length[of ?n ?shares amount ?step ?diff 0] n by auto
  have "EqualSplit_split amount participants = Inr (zip ?users shares')"
    using n s by (simp add: EqualSplit_split_def Let_def)
  moreover have "keys (zip ?users shares') = ?users"
    using l by (simp add: keys_def)
  ultimately show "\<exists>alloc. EqualSplit_split amount participants = Inr alloc \<and> keys alloc = keys participants"
    by blast
qed

theorem EqualSplit_split_total_witness:
  "EqualSplit_split 10 [] = Inl ZeroDivisionError \<and>
   [(''A'', 1), (''B'', 1), (''C'', 1)] \<noteq> ([] :: (string, rat) dict) \<and>
   (\<exists>alloc. EqualSplit_split 10 [(''A'', 1), (''B'', 1), (''C'', 1)] = Inr alloc \<and>
      keys alloc = keys [(''A'', 1), (''B'', 1), (''C'', 1 :: rat)])"
  using EqualSplit_split_total[of 10 "[(''A'', 1), (''B'', 1), (''C'', 1)]"] by simp


lemma adjust_loop_Inr_length:
  "adjust_loop amount n step shares diff i = Inr shares' \<Longrightarrow> length shares' = length shares"
proof (induction amount n step shares diff i rule: adjust_loop.induct)
  case (1 amount n step shares diff i)
  show ?case
  proof (cases "1 / 100 - EPS \<le> \<bar>diff\<bar> \<and> i < 1000")
    case True
    let ?idx = "i mod n"
    let ?s = "shares[?idx := qround (shares ! ?idx + step)]"
    from "1.prems" True have n0: "n \<noteq> 0" and idx: "\<not> length shares \<le> ?idx"
      by (subst (asm) adjust_loop.simps, simp split: if_splits add: Let_def)+
    from "1.prems" True n0 idx
    have "adjust_loop amount n step ?s (qround (amount - sum_list ?s)) (i + 1) = Inr shares'"
      by (subst (asm) adjust_loop.simps) (simp add: Let_def)
    from "1.IH"[OF True n0 refl idx refl refl this] show ?thesis by simp
  next
    case False
    with "1.prems" show ?thesis by (subst (asm) adjust_loop.simps) auto
  qed
qed

lemma length_keys: "length (keys d) = length d"
  by (simp add: keys_def)

lemma keys_zip: "length ys = length xs \<Longrightarrow> keys (zip xs ys) = xs"
  by (simp add: keys_def)

lemma EqualSplit_split_keys:
  "EqualSplit_split amount participants = Inr alloc \<Longrightarrow> keys alloc = keys participants"
  by (auto simp: EqualSplit_split_def Let_def keys_zip length_keys split: if_splits sum.splits
           dest!: adjust_loop_Inr_length)

lemma ExactSplit_split_keys:
  "ExactSplit_split amount participants = Inr alloc \<Longrightarrow> keys alloc = keys participants"
  by (auto simp: ExactSplit_split_def Let_def keys_def split: if_splits)

lemma ShareSplit_split_keys:
  "ShareSplit_split amount participants = Inr alloc \<Longrightarrow> keys alloc = keys participants"
proof -
  have k: "keys (map (\<lambda>(k, w). (k, f w)) participants) = keys participants" for f :: "rat \<Rightarrow> rat"
    by (induction participants) (auto simp: keys_def)
  assume "ShareSplit_split amount participants = Inr alloc"
  then show ?thesis
    by (auto simp: ShareSplit_split_def Let_def keys_zip k length_keys split: if_splits sum.splits
           dest!: adjust_loop_Inr_length)
qed

lemma allocations_keys:
  "allocations ex = Inr alloc \<Longrightarrow> keys alloc = keys (e_participants ex)"
  by (cases "e_split_strategy ex")
     (auto simp: allocations_def split_def EqualSplit_split_keys ExactSplit_split_keys ShareSplit_split_keys)

lemma map_of_update_entry:
  "map_of (update_entry bal a b f) a' =
     (if a' = a then Some (AList.update b (f (owes bal a b)) (get_default bal a [])) else map_of bal a')"
  by (simp add: update_entry_def Let_def update_conv' owes_def)

lemma entry_update_entry:
  "entry (update_entry bal a b f) a' b' =
     (if a' = a \<and> b' = b then Some (f (owes bal a b)) else entry bal a' b')"
  by (auto simp: entry_def map_of_update_entry update_conv' get_default_def split: option.splits)

lemma owes_entry: "owes bal a b = (case entry bal a b of None \<Rightarrow> 0 | Some v \<Rightarrow> v)"
  by (simp add: owes_def entry_def get_default_def split: option.splits)

lemma entry_fold_expense:
  "distinct (map fst alloc) \<Longrightarrow>
   entry (fold (\<lambda>(user, owed) b.
                  if user = payer then b else update_entry b user payer (\<lambda>v. v + owed)) alloc bal) u p =
     (if u \<in> fst ` set alloc \<and> u \<noteq> payer \<and> p = payer
      then Some (owes bal u p + the (map_of alloc u)) else entry bal u p)"
proof (induction alloc arbitrary: bal)
  case Nil
  then show ?case by simp
next
  case (Cons x alloc)
  obtain user owed where x: "x = (user, owed)" by (cases x)
  from Cons.prems x have d: "distinct (map fst alloc)" and nin: "user \<notin> fst ` set alloc" by auto
  show ?case
    using nin by (auto simp: x Cons.IH[OF d] entry_update_entry owes_entry)
qed

section \<open>Properties of the ledger\<close>

text \<open>
  C3. \<open>apply_expense\<close>: when the allocation raises, so does \<open>apply_expense\<close>, and
  the table is not touched. Otherwise, for every participant \<open>u\<close> of the allocation
  other than the payer, the entry \<open>balance[u][payer]\<close> becomes its former value (zero
  when absent) plus the amount allocated to \<open>u\<close>; every other entry, the payer's own
  among them, is as it was: none is created, none is changed.
\<close>

theorem apply_expense_entries:
  "distinct (keys (e_participants ex)) \<Longrightarrow>
   (case allocations ex of
      Inl e \<Rightarrow> apply_expense bal ex = Inl e
    | Inr alloc \<Rightarrow>
        (\<exists>bal'. apply_expense bal ex = Inr bal' \<and>
           (\<forall>u p. entry bal' u p =
              (if u \<in> set (keys alloc) \<and> u \<noteq> e_payer ex \<and> p = e_payer ex
               then Some (owes bal u p + the (map_of alloc u))
               else entry bal u p))))"
proof (cases "allocations ex")
  case (Inl e)
  then show ?thesis by (simp add: apply_expense_def)
next
  case (Inr alloc)
  assume "distinct (keys (e_participants ex))"
  with allocations_keys[OF Inr] have d: "distinct (map fst alloc)" by (simp add: keys_def)
  show ?thesis
    using Inr by (simp add: apply_expense_def entry_fold_expense[OF d] keys_def)
qed

lemma allocations_ex_dinner:
  "allocations ex_dinner = Inr [(''you'', 30), (''sam'', 30), (''lee'', 30)]"
  by code_simp

theorem apply_expense_entries_witness:
  "distinct (keys (e_participants ex_dinner)) \<and>
   (\<exists>bal'. apply_expense [] ex_dinner = Inr bal' \<and>
      entry bal' ''sam'' ''you'' = Some 30 \<and> entry bal' ''lee'' ''you'' = Some 30 \<and>
      entry bal' ''you'' ''you'' = None \<and> entry bal' ''you'' ''sam'' = None)"
proof -
  have d: "distinct (keys (e_participants ex_dinner))"
    by (simp add: ex_dinner_def keys_def)
  have p: "e_payer ex_dinner = ''you''" by (simp add: ex_dinner_def)
  from apply_expense_entries[OF d, of "[]"] obtain bal' where
    a: "apply_expense [] ex_dinner = Inr bal'" and
    e: "\<And>u p. entry bal' u p =
          (if u \<in> set (keys [(''you'', 30), (''sam'', 30), (''lee'', 30 :: rat)]) \<and> u \<noteq> ''you'' \<and> p = ''you''
           then Some (owes [] u p + the (map_of [(''you'', 30), (''sam'', 30), (''lee'', 30)] u))
           else entry [] u p)"
    unfolding allocations_ex_dinner p by auto
  have n: "entry [] u p = None" for u p by (simp add: entry_def)
  show ?thesis
    using d a by (simp add: e n keys_def owes_def get_default_def)
qed

lemma map_of_fold_own:
  "distinct (map fst row) \<Longrightarrow>
   map_of (fold (\<lambda>(other, amt) result.
                   if P amt then AList.update other amt result else result) row acc) k =
     (case map_of row k of
        Some amt \<Rightarrow> if P amt then Some amt else map_of acc k
      | None \<Rightarrow> map_of acc k)"
proof (induction row arbitrary: acc)
  case Nil
  then show ?case by simp
next
  case (Cons x row)
  obtain other amt where x: "x = (other, amt)" by (cases x)
  from Cons.prems x have d: "distinct (map fst row)" and nin: "map_of row other = None"
    by (auto simp: map_of_eq_None_iff)
  show ?case
    using nin by (auto simp: x Cons.IH[OF d] update_conv' split: option.splits)
qed

lemma map_of_fold_others:
  "distinct (map fst bal) \<Longrightarrow>
   map_of (fold (\<lambda>(other, mp) result.
                   if other = me then result
                   else
                     let amt = get_default mp me 0
                     in if P amt
                        then AList.update other (get_default result other 0 - amt) result
                        else result) bal acc) k =
     (case map_of bal k of
        Some mp \<Rightarrow>
          if k \<noteq> me \<and> P (get_default mp me (0 :: rat))
          then Some (get_default acc k (0 :: rat) - get_default mp me 0) else map_of acc k
      | None \<Rightarrow> map_of acc k)"
proof (induction bal arbitrary: acc)
  case Nil
  then show ?case by simp
next
  case (Cons x bal)
  obtain other mp where x: "x = (other, mp)" by (cases x)
  from Cons.prems x have d: "distinct (map fst bal)" and nin: "map_of bal other = None"
    by (auto simp: map_of_eq_None_iff)
  show ?case
    using nin
    by (auto simp: x Cons.IH[OF d] update_conv' Let_def get_default_def split: option.splits)
qed

lemma wf_balance_row:
  "wf_balance bal \<Longrightarrow> distinct (map fst (get_default bal me []))"
  by (auto simp: wf_balance_def get_default_def list_all_iff keys_def
           split: option.splits dest!: map_of_SomeD)

lemma net_for_lookup:
  assumes "wf_balance bal"
  shows "map_of (net_for bal me) other =
     (if 1 / 1000000000 < \<bar>owes bal me other\<bar> \<or> (other \<noteq> me \<and> 1 / 1000000000 < \<bar>owes bal other me\<bar>)
      then Some (py_round ((if 1 / 1000000000 < \<bar>owes bal me other\<bar> then owes bal me other else 0)
                           - (if other \<noteq> me \<and> 1 / 1000000000 < \<bar>owes bal other me\<bar>
                              then owes bal other me else 0)) 2)
      else None)"
proof -
  have d1: "distinct (map fst bal)" using assms by (simp add: wf_balance_def keys_def)
  have d2: "distinct (map fst (get_default bal me []))" by (rule wf_balance_row[OF assms])
  note f1 = map_of_fold_own[OF d2, where P = "\<lambda>amt. 1 / 1000000000 < \<bar>amt\<bar>" and acc = "[]"]
  note f2 = map_of_fold_others[OF d1, where P = "\<lambda>amt. 1 / 1000000000 < \<bar>amt\<bar>", unfolded Let_def]
  show ?thesis
    apply (simp only: net_for_def Let_def map_of_map comp_def)
    apply (simp only: f2)
    apply (simp only: get_default_def[of "fold _ _ _"] f1)
    apply (auto simp: owes_def get_default_def split: option.splits)
    done
qed


lemma round_half_even_minus: "round_half_even (- x) = - round_half_even x"
proof -
  define f where "f = \<lfloor>x\<rfloor>"
  define d where "d = x - of_int f"
  have d0: "0 \<le> d" and d1: "d < 1" and x: "x = of_int f + d"
    unfolding d_def f_def by linarith+
  show ?thesis
  proof (cases "d = 0")
    case True
    then have "\<lfloor>- x\<rfloor> = - f" using x by simp
    then show ?thesis using True x
      by (simp add: round_half_even_def Let_def)
  next
    case False
    have fl: "\<lfloor>- x\<rfloor> = - f - 1"
      by (rule floor_unique) (use x d0 d1 False in auto)
    have fx: "\<lfloor>x\<rfloor> = f" by (simp add: f_def)
    have dx: "x - of_int f = d" by (simp add: d_def)
    have d': "- x - of_int (- f - 1) = 1 - d" using x by simp
    show ?thesis
      unfolding round_half_even_def Let_def fl fx d' dx
      by (cases "d < 1 / 2"; cases "1 / 2 < d") auto
  qed
qed

lemma py_round_minus: "py_round (- x) n = - py_round x n"
  by (simp add: py_round_def round_half_even_minus)

lemma no_self_row:
  assumes "no_self_balance bal" shows "map_of (get_default bal a []) a = None"
proof (cases "map_of bal a")
  case None
  then show ?thesis by (simp add: get_default_def)
next
  case (Some row)
  then have "(a, row) \<in> set bal" by (rule map_of_SomeD)
  with assms have "map_of row a = None" by (auto simp: no_self_balance_def list_all_iff)
  with Some show ?thesis by (simp add: get_default_def)
qed

lemma no_self_owes: "no_self_balance bal \<Longrightarrow> owes bal a a = 0"
  by (simp add: owes_def no_self_row get_default_def[of "get_default bal a []"])

text \<open>
  C4, as the code has it. \<open>net_for\<close> keeps an entry for a counterparty exactly when one
  of the two directions between them is larger than \<open>1e-9\<close> in absolute value (the
  reverse direction only for a counterparty other than the identity itself). Its value is
  the directions that pass that guard, combined (own minus reverse) and rounded to two
  digits. The combined value is not compared with any epsilon: two directions that cancel
  give an entry of value zero.
\<close>

theorem net_for_entries:
  "wf_balance bal \<Longrightarrow>
   (map_of (net_for bal me) other \<noteq> None) =
     (1 / 1000000000 < \<bar>owes bal me other\<bar> \<or> (other \<noteq> me \<and> 1 / 1000000000 < \<bar>owes bal other me\<bar>)) \<and>
   (\<forall>v. map_of (net_for bal me) other = Some v \<longrightarrow>
      v = py_round ((if 1 / 1000000000 < \<bar>owes bal me other\<bar> then owes bal me other else 0)
                    - (if other \<noteq> me \<and> 1 / 1000000000 < \<bar>owes bal other me\<bar>
                       then owes bal other me else 0)) 2)"
  by (simp add: net_for_lookup)

text \<open>
  C5. Antisymmetry of the net view, for a well-formed table: for two different
  identities, or for any two identities when the table has no self balance, as soon as
  one of \<open>net_for(a)[b]\<close> and \<open>net_for(b)[a]\<close> is present, both are, and each is the
  negation of the other.
\<close>

theorem net_for_antisymmetric:
  assumes "wf_balance bal" and "a \<noteq> b \<or> no_self_balance bal"
    and "map_of (net_for bal a) b \<noteq> None \<or> map_of (net_for bal b) a \<noteq> None"
  shows "\<exists>v. map_of (net_for bal a) b = Some v \<and> map_of (net_for bal b) a = Some (- v)"
proof (cases "a = b")
  case True
  with assms(2) have "owes bal a a = 0" by (simp add: no_self_owes)
  with assms(1,3) True show ?thesis by (simp add: net_for_lookup)
next
  case False
  let ?x = "if 1 / 1000000000 < \<bar>owes bal a b\<bar> then owes bal a b else 0"
  let ?y = "if 1 / 1000000000 < \<bar>owes bal b a\<bar> then owes bal b a else 0"
  have m: "py_round (?y - ?x) 2 = - py_round (?x - ?y) 2"
    using py_round_minus[of "?x - ?y" 2] by (simp only: minus_diff_eq)
  from False have ba: "b \<noteq> a" by simp
  have A: "map_of (net_for bal a) b =
      (if 1 / 1000000000 < \<bar>owes bal a b\<bar> \<or> 1 / 1000000000 < \<bar>owes bal b a\<bar>
       then Some (py_round (?x - ?y) 2) else None)"
    using ba by (simp only: net_for_lookup[OF assms(1)] simp_thms if_True)
  have B: "map_of (net_for bal b) a =
      (if 1 / 1000000000 < \<bar>owes bal a b\<bar> \<or> 1 / 1000000000 < \<bar>owes bal b a\<bar>
       then Some (py_round (?y - ?x) 2) else None)"
    using False by (simp only: net_for_lookup[OF assms(1)] simp_thms if_True disj_commute)
  show ?thesis
    using assms(3) unfolding A B m by (auto split: if_splits)
qed

lemma list_all_update:
  "list_all P al \<Longrightarrow> P (k, v) \<Longrightarrow> list_all P (AList.update k v al)"
  by (induction al) auto

lemma wf_balance_update_entry:
  assumes "wf_balance bal" shows "wf_balance (update_entry bal a b f)"
proof -
  have "distinct (map fst (get_default bal a []))" by (rule wf_balance_row[OF assms])
  then have "distinct (keys (AList.update b (f (get_default (get_default bal a []) b 0)) (get_default bal a [])))"
    by (simp add: keys_def distinct_update)
  with assms show ?thesis
    by (simp add: wf_balance_def update_entry_def Let_def keys_def distinct_update list_all_update)
qed

lemma no_self_balance_update_entry:
  assumes "no_self_balance bal" and "a \<noteq> b" shows "no_self_balance (update_entry bal a b f)"
proof -
  have "map_of (get_default bal a []) a = None"
    by (rule no_self_row[OF assms(1)])
  with assms show ?thesis
    by (simp add: no_self_balance_def update_entry_def Let_def list_all_update update_conv')
qed

lemma wf_no_self_fold_expense:
  "wf_balance bal \<Longrightarrow>
   wf_balance (fold (\<lambda>(user, owed) b.
       if user = payer then b else update_entry b user payer (\<lambda>v. v + owed)) alloc bal)"
  "no_self_balance bal \<Longrightarrow>
   no_self_balance (fold (\<lambda>(user, owed) b.
       if user = payer then b else update_entry b user payer (\<lambda>v. v + owed)) alloc bal)"
  by (induction alloc arbitrary: bal)
     (auto simp: wf_balance_update_entry no_self_balance_update_entry)

lemma apply_expense_invariants:
  assumes "apply_expense bal ex = Inr bal'"
  shows "wf_balance bal \<Longrightarrow> wf_balance bal'" and "no_self_balance bal \<Longrightarrow> no_self_balance bal'"
  using assms by (auto simp: apply_expense_def wf_no_self_fold_expense split: sum.splits)

lemma apply_settlement_invariants:
  "wf_balance bal \<Longrightarrow> wf_balance (apply_settlement bal st)"
  "no_self_balance bal \<Longrightarrow> s_payer st \<noteq> s_payee st \<Longrightarrow> no_self_balance (apply_settlement bal st)"
  by (simp_all add: apply_settlement_def wf_balance_update_entry no_self_balance_update_entry)

lemma ledger_cross_reached:
  "apply_expense [] ex_lunch = Inr [(''A'', [(''B'', 30)])] \<and>
   apply_expense [(''A'', [(''B'', 30)])] ex_taxi = Inr ledger_cross"
  by code_simp

text \<open>
  C4, as the claim states it, fails: after an expense that makes A owe B 30 and one that
  makes B owe A 30, the combined net between them is zero, below \<open>EPS\<close>, and
  \<open>net_for\<close> still returns the entry, with value zero.
\<close>

theorem net_for_omission_counterexample:
  "net_for ledger_cross ''A'' = [(''B'', 0)] \<and>
   \<not> EPS \<le> \<bar>owes ledger_cross ''A'' ''B'' - owes ledger_cross ''B'' ''A''\<bar>"
  by code_simp

theorem net_for_entries_witness:
  "wf_balance ledger_cross \<and>
   map_of (net_for ledger_cross ''A'') ''B'' \<noteq> None \<and>
   1 / 1000000000 < \<bar>owes ledger_cross ''A'' ''B''\<bar> \<and>
   map_of (net_for ledger_cross ''A'') ''B'' = Some 0"
proof -
  have w: "wf_balance ledger_cross" by code_simp
  have o1: "owes ledger_cross ''A'' ''B'' = 30" by code_simp
  have o2: "owes ledger_cross ''B'' ''A'' = 30" by code_simp
  have r: "py_round 0 2 = 0" by code_simp
  from net_for_entries[OF w, of "''A''" "''B''"] show ?thesis
    unfolding o1 o2 using w r by auto
qed

theorem net_for_antisymmetric_witness:
  "wf_balance ledger_dinner \<and> no_self_balance ledger_dinner \<and>
   map_of (net_for ledger_dinner ''you'') ''sam'' = Some (- 30) \<and>
   map_of (net_for ledger_dinner ''sam'') ''you'' = Some 30"
proof -
  have w: "wf_balance ledger_dinner" by code_simp
  have n: "no_self_balance ledger_dinner" by code_simp
  have p: "map_of (net_for ledger_dinner ''you'') ''sam'' = Some (- 30)" by code_simp
  from net_for_antisymmetric[OF w disjI2[OF n], of "''you''" "''sam''"] p
  show ?thesis using w n by auto
qed

section \<open>Properties of the manager\<close>

lemma apply_timeline_reset:
  "(snd (apply_timeline m tline))\<lparr>ledger := bal\<rparr> = m\<lparr>ledger := bal\<rparr>"
  by (induction m tline rule: apply_timeline.induct) (auto split: sum.splits)

lemma rebuild_ledger_reset:
  "(snd (rebuild_ledger m))\<lparr>ledger := bal\<rparr> = m\<lparr>ledger := bal\<rparr>"
  by (auto simp: rebuild_ledger_def Let_def apply_timeline_reset[where m = "m\<lparr>ledger := []\<rparr>", simplified]
           split: sum.splits)

lemma rebuild_ledger_from_reset:
  "rebuild_ledger m = rebuild_ledger (m\<lparr>ledger := []\<rparr>)"
  by (simp add: rebuild_ledger_def)

text \<open>
  C8. Rebuild idempotence: \<open>rebuild_ledger\<close> starts from a fresh ledger, so running it
  again on the manager it has left gives the same outcome and the same balance table, and
  the outcome does not depend on the ledger the manager held before: it is a function of
  the cache alone.
\<close>

theorem rebuild_ledger_idempotent:
  "rebuild_ledger (snd (rebuild_ledger m)) = rebuild_ledger m \<and>
   rebuild_ledger (m\<lparr>ledger := bal\<rparr>) = rebuild_ledger m"
proof
  show "rebuild_ledger (snd (rebuild_ledger m)) = rebuild_ledger m"
    using rebuild_ledger_from_reset[of "snd (rebuild_ledger m)"] rebuild_ledger_from_reset[of m]
    by (simp add: rebuild_ledger_reset)
  show "rebuild_ledger (m\<lparr>ledger := bal\<rparr>) = rebuild_ledger m"
    using rebuild_ledger_from_reset[of "m\<lparr>ledger := bal\<rparr>"] rebuild_ledger_from_reset[of m]
    by simp
qed

lemma strategy_map_None:
  "strategy_map name = None \<longleftrightarrow> name \<notin> {''EqualSplit'', ''ExactSplit'', ''ShareSplit''}"
  by (simp add: strategy_map_def)

lemma deserialize_expenses_unknown:
  "\<exists>d \<in> set ds. strategy_map (d_split_strategy d) = None \<Longrightarrow>
   \<exists>d \<in> set ds. strategy_map (d_split_strategy d) = None \<and>
      deserialize_expenses ds = Inl (ValueError (Unknown_split_strategy (d_split_strategy d)))"
proof (induction ds)
  case Nil
  then show ?case by simp
next
  case (Cons d ds)
  show ?case
  proof (cases "strategy_map (d_split_strategy d)")
    case None
    then show ?thesis by (simp add: deserialize_expense_def)
  next
    case (Some strat)
    with Cons.prems have "\<exists>d \<in> set ds. strategy_map (d_split_strategy d) = None" by auto
    from Cons.IH[OF this] Some show ?thesis
      by (auto simp: deserialize_expense_def)
  qed
qed

text \<open>
  C7. If some persisted expense carries a split strategy name other than
  \<open>EqualSplit\<close>, \<open>ExactSplit\<close> and \<open>ShareSplit\<close>, \<open>rebuild_ledger\<close> raises the
  \<open>ValueError\<close> for an unknown split strategy, and the ledger it leaves is the empty
  one: no event of the history was applied.
\<close>

theorem rebuild_ledger_unknown_strategy:
  assumes "\<exists>d \<in> set (list_expenses (cache m)).
             d_split_strategy d \<notin> {''EqualSplit'', ''ExactSplit'', ''ShareSplit''}"
  shows "\<exists>name. name \<notin> {''EqualSplit'', ''ExactSplit'', ''ShareSplit''} \<and>
           rebuild_ledger m = (Some (ValueError (Unknown_split_strategy name)), m\<lparr>ledger := []\<rparr>)"
proof -
  from assms have "\<exists>d \<in> set (list_expenses (cache m)). strategy_map (d_split_strategy d) = None"
    by (simp only: strategy_map_None)
  from deserialize_expenses_unknown[OF this] obtain d :: ExpenseData where
    n: "strategy_map (d_split_strategy d) = None" and
    e: "deserialize_expenses (list_expenses (cache m)) =
          Inl (ValueError (Unknown_split_strategy (d_split_strategy d)))"
    by blast
  from n have "d_split_strategy d \<notin> {''EqualSplit'', ''ExactSplit'', ''ShareSplit''}"
    using strategy_map_None by blast
  moreover have "rebuild_ledger m =
      (Some (ValueError (Unknown_split_strategy (d_split_strategy d))), m\<lparr>ledger := []\<rparr>)"
    using e by (simp add: rebuild_ledger_def)
  ultimately show ?thesis by blast
qed

lemma apply_timeline_all:
  "list_all (\<lambda>ev. raises ev = None) tline \<Longrightarrow>
   apply_timeline m tline = (None, m\<lparr>ledger := fold apply_event tline (ledger m)\<rparr>)"
proof (induction m tline rule: apply_timeline.induct)
  case (1 m)
  then show ?case by simp
next
  case (2 m t obj rest)
  from "2.prems" obtain alloc where a: "allocations obj = Inr alloc"
    by (auto simp: raises_def split: sum.splits)
  then obtain bal where b: "apply_expense (ledger m) obj = Inr bal"
    by (simp add: apply_expense_def)
  from "2.prems" have r: "list_all (\<lambda>ev. raises ev = None) rest" by simp
  show ?case
    using "2.IH"[OF b r] b by (simp add: apply_event_def)
next
  case (3 m t obj rest)
  from "3.prems" have r: "list_all (\<lambda>ev. raises ev = None) rest" by simp
  show ?case
    using "3.IH"[OF r] by (simp add: apply_event_def)
qed

lemma apply_timeline_raise:
  assumes "list_all (\<lambda>ev. raises ev = None) pre" and "allocations obj = Inl err"
  shows "apply_timeline m (pre @ (t, expense obj) # post) =
           (Some err, m\<lparr>ledger := fold apply_event pre (ledger m)\<rparr>)"
  using assms(1)
proof (induction m pre rule: apply_timeline.induct)
  case (1 m)
  then show ?case using assms(2) by (simp add: apply_expense_def)
next
  case (2 m t' obj' rest)
  from "2.prems" obtain alloc where a: "allocations obj' = Inr alloc"
    by (auto simp: raises_def split: sum.splits)
  then obtain bal where b: "apply_expense (ledger m) obj' = Inr bal"
    by (simp add: apply_expense_def)
  from "2.prems" have r: "list_all (\<lambda>ev. raises ev = None) rest" by simp
  show ?case
    using "2.IH"[OF b r] b by (simp add: apply_event_def)
next
  case (3 m t' obj' rest)
  from "3.prems" have r: "list_all (\<lambda>ev. raises ev = None) rest" by simp
  show ?case
    using "3.IH"[OF r] by (simp add: apply_event_def)
qed

text \<open>
  C6. When every expense record deserializes, there is one timeline only that holds
  exactly the expenses and settlements of the cache, is sorted ascending by date as a
  whole (the two kinds interleaved), and keeps the events of one date in the order of the
  merged collections (the expenses in cache order, then the settlements in cache order).
  \<open>rebuild_ledger\<close> applies it, event by event in that order, to the empty ledger: when
  no allocation in it raises, the ledger it leaves is the empty ledger taken through
  every event of the timeline; when the allocation of an expense raises and none before
  it does, it returns that exception and leaves the empty ledger taken through the events
  before that expense.
\<close>

theorem rebuild_ledger_timeline:
  assumes "deserialize_expenses (list_expenses (cache m)) = Inr exps"
    and "sets = map deserialize_settlement (list_settlements (cache m))"
  shows "\<exists>tline.
           mset tline = mset (merge_timeline exps sets) \<and>
           sorted (map fst tline) \<and>
           (\<forall>t. filter (\<lambda>x. fst x = t) tline = filter (\<lambda>x. fst x = t) (merge_timeline exps sets)) \<and>
           (\<forall>tline'. mset tline' = mset (merge_timeline exps sets) \<and> sorted (map fst tline') \<and>
                  (\<forall>t. filter (\<lambda>x. fst x = t) tline' = filter (\<lambda>x. fst x = t) (merge_timeline exps sets))
                  \<longrightarrow> tline' = tline) \<and>
           (list_all (\<lambda>ev. raises ev = None) tline \<longrightarrow>
              rebuild_ledger m = (None, m\<lparr>ledger := fold apply_event tline []\<rparr>)) \<and>
           (\<forall>pre t obj post err.
              tline = pre @ (t, expense obj) # post \<and> list_all (\<lambda>ev. raises ev = None) pre \<and>
              allocations obj = Inl err \<longrightarrow>
              rebuild_ledger m = (Some err, m\<lparr>ledger := fold apply_event pre []\<rparr>))"
proof (intro exI conjI allI impI)
  let ?tline = "sort_key fst (merge_timeline exps sets)"
  have rb: "rebuild_ledger m = apply_timeline (m\<lparr>ledger := []\<rparr>) ?tline"
    using assms by (simp add: rebuild_ledger_def Let_def)
  show "mset ?tline = mset (merge_timeline exps sets)" by simp
  show "sorted (map fst ?tline)" by simp
  show "filter (\<lambda>x. fst x = t) ?tline = filter (\<lambda>x. fst x = t) (merge_timeline exps sets)" for t
    by (rule sort_key_stable)
  show "rebuild_ledger m = (None, m\<lparr>ledger := fold apply_event ?tline []\<rparr>)"
    if "list_all (\<lambda>ev. raises ev = None) ?tline"
    unfolding rb using apply_timeline_all[OF that, of "m\<lparr>ledger := []\<rparr>"] by simp
  show "rebuild_ledger m = (Some err, m\<lparr>ledger := fold apply_event pre []\<rparr>)"
    if "?tline = pre @ (t, expense obj) # post \<and> list_all (\<lambda>ev. raises ev = None) pre \<and>
        allocations obj = Inl err" for pre t obj post err
  proof -
    from that have s: "?tline = pre @ (t, expense obj) # post"
      and p: "list_all (\<lambda>ev. raises ev = None) pre" and a: "allocations obj = Inl err"
      by simp_all
    show ?thesis
      unfolding rb s using apply_timeline_raise[OF p a, of "m\<lparr>ledger := []\<rparr>" t post] by simp
  qed
  fix tline'
  assume a: "mset tline' = mset (merge_timeline exps sets) \<and> sorted (map fst tline') \<and>
             (\<forall>t. filter (\<lambda>x. fst x = t) tline' = filter (\<lambda>x. fst x = t) (merge_timeline exps sets))"
  have "sort_key fst (merge_timeline exps sets) = tline'"
  proof (rule properties_for_sort_key)
    show "mset tline' = mset (merge_timeline exps sets)" using a by simp
    show "sorted (map fst tline')" using a by simp
    fix k assume "k \<in> set tline'"
    from a have "filter (\<lambda>x. fst x = fst k) tline' = filter (\<lambda>x. fst x = fst k) (merge_timeline exps sets)"
      by blast
    then show "filter (\<lambda>x. fst k = fst x) tline' = filter (\<lambda>x. fst k = fst x) (merge_timeline exps sets)"
      by (simp add: eq_commute)
  qed
  then show "tline' = ?tline" by simp
qed

theorem rebuild_ledger_timeline_witness:
  "(\<exists>tline. map fst tline = [1, 2, 3, 3] \<and>
      map (\<lambda>ev. case snd ev of expense e \<Rightarrow> e_id e | settlement s \<Rightarrow> s_id s) tline =
        [''e1'', ''s1'', ''e2'', ''s2''] \<and>
      list_all (\<lambda>ev. raises ev = None) tline \<and>
      fold apply_event tline [] =
        [(''sam'', [(''you'', 10)]), (''lee'', [(''you'', 0)]), (''you'', [(''sam'', 10)])] \<and>
      rebuild_ledger \<lparr>cache = cache_demo, ledger = ledger_cross\<rparr> =
        (None, \<lparr>cache = cache_demo, ledger = fold apply_event tline []\<rparr>)) \<and>
   (\<exists>pre post. map fst (pre @ (2, expense ex_cinema) # post) = [1, 2, 3] \<and>
      list_all (\<lambda>ev. raises ev = None) pre \<and>
      allocations ex_cinema = Inl (ValueError (Exact_split_totals 49 50)) \<and>
      fold apply_event pre [] = [(''sam'', [(''you'', 30)]), (''lee'', [(''you'', 30)])] \<and>
      rebuild_ledger \<lparr>cache = cache_mismatch, ledger = ledger_cross\<rparr> =
        (Some (ValueError (Exact_split_totals 49 50)),
         \<lparr>cache = cache_mismatch, ledger = fold apply_event pre []\<rparr>))"
proof
  let ?m = "\<lparr>cache = cache_demo, ledger = ledger_cross\<rparr>"
  let ?exps = "projr (deserialize_expenses (list_expenses cache_demo))"
  let ?sets = "map deserialize_settlement (list_settlements cache_demo)"
  let ?sorted = "sort_key fst (merge_timeline ?exps ?sets)"
  have "\<not> isl (deserialize_expenses (list_expenses cache_demo))" by code_simp
  then have h: "deserialize_expenses (list_expenses (cache ?m)) = Inr ?exps" by simp
  from rebuild_ledger_timeline[OF h refl] obtain tline where
    u: "\<forall>tline'. mset tline' = mset (merge_timeline ?exps ?sets) \<and> sorted (map fst tline') \<and>
          (\<forall>t. filter (\<lambda>x. fst x = t) tline' = filter (\<lambda>x. fst x = t) (merge_timeline ?exps ?sets))
          \<longrightarrow> tline' = tline"
    and r: "list_all (\<lambda>ev. raises ev = None) tline \<longrightarrow>
              rebuild_ledger ?m = (None, ?m\<lparr>ledger := fold apply_event tline []\<rparr>)"
    by (simp only: ExpenseManager.simps) blast
  have "mset ?sorted = mset (merge_timeline ?exps ?sets) \<and> sorted (map fst ?sorted) \<and>
        (\<forall>t. filter (\<lambda>x. fst x = t) ?sorted = filter (\<lambda>x. fst x = t) (merge_timeline ?exps ?sets))"
    by (simp add: sort_key_stable)
  with u have t: "tline = ?sorted" by blast
  have 1: "map fst ?sorted = [1, 2, 3, 3]" by code_simp
  have 2: "map (\<lambda>ev. case snd ev of expense e \<Rightarrow> e_id e | settlement s \<Rightarrow> s_id s) ?sorted =
        [''e1'', ''s1'', ''e2'', ''s2'']" by code_simp
  have 3: "list_all (\<lambda>ev. raises ev = None) ?sorted" by code_simp
  have 4: "fold apply_event ?sorted [] =
        [(''sam'', [(''you'', 10)]), (''lee'', [(''you'', 0)]), (''you'', [(''sam'', 10)])]"
    by code_simp
  from r 3 have 5: "rebuild_ledger ?m = (None, \<lparr>cache = cache_demo, ledger = fold apply_event tline []\<rparr>)"
    by (simp add: t)
  show "\<exists>tline. map fst tline = [1, 2, 3, 3] \<and>
      map (\<lambda>ev. case snd ev of expense e \<Rightarrow> e_id e | settlement s \<Rightarrow> s_id s) tline =
        [''e1'', ''s1'', ''e2'', ''s2''] \<and>
      list_all (\<lambda>ev. raises ev = None) tline \<and>
      fold apply_event tline [] =
        [(''sam'', [(''you'', 10)]), (''lee'', [(''you'', 0)]), (''you'', [(''sam'', 10)])] \<and>
      rebuild_ledger \<lparr>cache = cache_demo, ledger = ledger_cross\<rparr> =
        (None, \<lparr>cache = cache_demo, ledger = fold apply_event tline []\<rparr>)"
    apply (rule exI[of _ ?sorted])
    apply (intro conjI)
        apply (rule 1)
       apply (rule 2)
      apply (rule 3)
     apply (rule 4)
    apply (rule 5[unfolded t])
    done
next
  let ?m = "\<lparr>cache = cache_mismatch, ledger = ledger_cross\<rparr>"
  let ?exps = "projr (deserialize_expenses (list_expenses cache_mismatch))"
  let ?sets = "map deserialize_settlement (list_settlements cache_mismatch)"
  let ?sorted = "sort_key fst (merge_timeline ?exps ?sets)"
  let ?pre = "take 1 ?sorted"
  let ?post = "drop 2 ?sorted"
  have "\<not> isl (deserialize_expenses (list_expenses cache_mismatch))" by code_simp
  then have h: "deserialize_expenses (list_expenses (cache ?m)) = Inr ?exps" by simp
  from rebuild_ledger_timeline[OF h refl] obtain tline where
    u: "\<forall>tline'. mset tline' = mset (merge_timeline ?exps ?sets) \<and> sorted (map fst tline') \<and>
          (\<forall>t. filter (\<lambda>x. fst x = t) tline' = filter (\<lambda>x. fst x = t) (merge_timeline ?exps ?sets))
          \<longrightarrow> tline' = tline"
    and r: "\<forall>pre t obj post err.
              tline = pre @ (t, expense obj) # post \<and> list_all (\<lambda>ev. raises ev = None) pre \<and>
              allocations obj = Inl err \<longrightarrow>
              rebuild_ledger ?m = (Some err, ?m\<lparr>ledger := fold apply_event pre []\<rparr>)"
    by (simp only: ExpenseManager.simps) blast
  have "mset ?sorted = mset (merge_timeline ?exps ?sets) \<and> sorted (map fst ?sorted) \<and>
        (\<forall>t. filter (\<lambda>x. fst x = t) ?sorted = filter (\<lambda>x. fst x = t) (merge_timeline ?exps ?sets))"
    by (simp add: sort_key_stable)
  with u have t: "tline = ?sorted" by blast
  have 1: "?sorted = ?pre @ (2, expense ex_cinema) # ?post" by code_simp
  have 2: "map fst (?pre @ (2, expense ex_cinema) # ?post) = [1, 2, 3]" by code_simp
  have 3: "list_all (\<lambda>ev. raises ev = None) ?pre" by code_simp
  have 4: "allocations ex_cinema = Inl (ValueError (Exact_split_totals 49 50))" by code_simp
  have 5: "fold apply_event ?pre [] = [(''sam'', [(''you'', 30)]), (''lee'', [(''you'', 30)])]"
    by code_simp
  from r t 1 3 4 have 6: "rebuild_ledger ?m =
      (Some (ValueError (Exact_split_totals 49 50)), ?m\<lparr>ledger := fold apply_event ?pre []\<rparr>)"
    by blast
  then have 7: "rebuild_ledger ?m =
      (Some (ValueError (Exact_split_totals 49 50)),
        \<lparr>cache = cache_mismatch, ledger = fold apply_event ?pre []\<rparr>)" by simp
  show "\<exists>pre post. map fst (pre @ (2, expense ex_cinema) # post) = [1, 2, 3] \<and>
      list_all (\<lambda>ev. raises ev = None) pre \<and>
      allocations ex_cinema = Inl (ValueError (Exact_split_totals 49 50)) \<and>
      fold apply_event pre [] = [(''sam'', [(''you'', 30)]), (''lee'', [(''you'', 30)])] \<and>
      rebuild_ledger \<lparr>cache = cache_mismatch, ledger = ledger_cross\<rparr> =
        (Some (ValueError (Exact_split_totals 49 50)),
         \<lparr>cache = cache_mismatch, ledger = fold apply_event pre []\<rparr>)"
    apply (rule exI[of _ ?pre])
    apply (rule exI[of _ ?post])
    apply (intro conjI)
        apply (rule 2)
       apply (rule 3)
      apply (rule 4)
     apply (rule 5)
    apply (rule 7)
    done
qed

lemma rebuild_ledger_demo:
  "rebuild_ledger \<lparr>cache = cache_demo, ledger = ledger_cross\<rparr> =
     (None, \<lparr>cache = cache_demo,
              ledger = [(''sam'', [(''you'', 10)]), (''lee'', [(''you'', 0)]), (''you'', [(''sam'', 10)])]\<rparr>)"
  by code_simp

theorem rebuild_ledger_unknown_strategy_witness:
  "\<exists>name. name \<notin> {''EqualSplit'', ''ExactSplit'', ''ShareSplit''} \<and>
     rebuild_ledger \<lparr>cache = cache_bad, ledger = ledger_cross\<rparr> =
       (Some (ValueError (Unknown_split_strategy name)), \<lparr>cache = cache_bad, ledger = []\<rparr>)"
proof -
  let ?m = "\<lparr>cache = cache_bad, ledger = ledger_cross\<rparr>"
  have "\<exists>d \<in> set (list_expenses (cache ?m)).
          d_split_strategy d \<notin> {''EqualSplit'', ''ExactSplit'', ''ShareSplit''}"
    by (simp add: cache_bad_def list_expenses_def)
  from rebuild_ledger_unknown_strategy[OF this] show ?thesis by simp
qed

lemma rebuild_ledger_bad:
  "rebuild_ledger \<lparr>cache = cache_bad, ledger = ledger_cross\<rparr> =
     (Some (ValueError (Unknown_split_strategy ''PercentSplit'')), \<lparr>cache = cache_bad, ledger = []\<rparr>)"
  by code_simp

lemma apply_timeline_wf:
  "wf_balance (ledger m) \<Longrightarrow> wf_balance (ledger (snd (apply_timeline m tline)))"
  by (induction m tline rule: apply_timeline.induct)
     (auto split: sum.splits simp: apply_expense_invariants apply_settlement_invariants)

lemma apply_timeline_no_self:
  "no_self_balance (ledger m) \<Longrightarrow>
   list_all (\<lambda>(t, ev). case ev of expense e \<Rightarrow> True | settlement s \<Rightarrow> s_payer s \<noteq> s_payee s) tline \<Longrightarrow>
   no_self_balance (ledger (snd (apply_timeline m tline)))"
  by (induction m tline rule: apply_timeline.induct)
     (auto split: sum.splits simp: apply_expense_invariants apply_settlement_invariants)

lemma rebuild_ledger_wf: "wf_balance (ledger (snd (rebuild_ledger m)))"
proof -
  have e: "wf_balance []" by (simp add: wf_balance_def keys_def)
  show ?thesis
    using apply_timeline_wf[where m = "m\<lparr>ledger := []\<rparr>"] e
    by (auto simp: rebuild_ledger_def Let_def split: sum.splits)
qed

lemma rebuild_ledger_no_self:
  assumes "list_all (\<lambda>d. sd_payer d \<noteq> sd_payee d) (list_settlements (cache m))"
  shows "no_self_balance (ledger (snd (rebuild_ledger m)))"
proof -
  have e: "no_self_balance []" by (simp add: no_self_balance_def)
  have l: "list_all (\<lambda>(t, ev). case ev of expense e \<Rightarrow> True | settlement s \<Rightarrow> s_payer s \<noteq> s_payee s)
             (sort_key fst (merge_timeline exps (map deserialize_settlement (list_settlements (cache m)))))"
    for exps
    using assms by (auto simp: list_all_iff merge_timeline_def deserialize_settlement_def)
  show ?thesis
    using apply_timeline_no_self[where m = "m\<lparr>ledger := []\<rparr>", OF _ l] e
    by (auto simp: rebuild_ledger_def Let_def split: sum.splits)
qed

section \<open>Conservation and fairness of the splits\<close>

lemma round_half_even_of_int: "round_half_even (of_int k) = k"
  by (simp add: round_half_even_def)

lemma round_half_even_bounds:
  "of_int (round_half_even x) - 1 / 2 \<le> x \<and> x \<le> of_int (round_half_even x) + 1 / 2"
proof -
  have f: "of_int \<lfloor>x\<rfloor> \<le> x" "x < of_int \<lfloor>x\<rfloor> + 1" by linarith+
  have "round_half_even x = \<lfloor>x\<rfloor> \<and> x - of_int \<lfloor>x\<rfloor> \<le> 1 / 2
      \<or> round_half_even x = \<lfloor>x\<rfloor> + 1 \<and> 1 / 2 \<le> x - of_int \<lfloor>x\<rfloor>"
    by (auto simp: round_half_even_def Let_def)
  then show ?thesis
  proof
    assume a: "round_half_even x = \<lfloor>x\<rfloor> \<and> x - of_int \<lfloor>x\<rfloor> \<le> 1 / 2"
    then have "(of_int (round_half_even x) :: rat) = of_int \<lfloor>x\<rfloor>" by simp
    with a f show ?thesis by linarith
  next
    assume a: "round_half_even x = \<lfloor>x\<rfloor> + 1 \<and> 1 / 2 \<le> x - of_int \<lfloor>x\<rfloor>"
    then have "(of_int (round_half_even x) :: rat) = of_int \<lfloor>x\<rfloor> + 1" by simp
    with a f show ?thesis by linarith
  qed
qed

lemma round_half_even_half: "round_half_even (1 / 2) = 0"
proof -
  have "\<lfloor>1 / 2 :: rat\<rfloor> = 0" by (rule floor_unique) simp_all
  then show ?thesis unfolding round_half_even_def Let_def by simp
qed

lemma round_half_even_minus_half: "round_half_even (- (1 / 2)) = 0"
proof -
  have "\<lfloor>- (1 / 2) :: rat\<rfloor> = - 1" by (rule floor_unique) simp_all
  then show ?thesis unfolding round_half_even_def Let_def by simp
qed

lemma round_half_even_zero_iff: "round_half_even x = 0 \<longleftrightarrow> \<bar>x\<bar> \<le> 1 / 2"
proof
  assume "round_half_even x = 0"
  then have "(of_int (round_half_even x) :: rat) = 0" by simp
  with round_half_even_bounds[of x] show "\<bar>x\<bar> \<le> 1 / 2" by linarith
next
  assume a: "\<bar>x\<bar> \<le> 1 / 2"
  show "round_half_even x = 0"
  proof (cases "\<bar>x\<bar> < 1 / 2")
    case True
    have "\<bar>(of_int (round_half_even x) :: rat)\<bar> < 1"
      using round_half_even_bounds[of x] True by linarith
    then show ?thesis by (metis of_int_abs of_int_less_1_iff zero_less_abs_iff less_irrefl abs_zero of_int_0 zabs_less_one_iff)
  next
    case False
    with a have "x = 1 / 2 \<or> x = - (1 / 2)" by linarith
    then show ?thesis
      by (elim disjE) (simp_all only: round_half_even_half round_half_even_minus_half)
  qed
qed

lemma qround_eq: "qround x = cents (round_half_even (x * 100))"
proof -
  let ?k = "round_half_even (x * 100)"
  have "\<bar>of_int ?k / 100 :: rat\<bar> < EPS \<longleftrightarrow> ?k = 0"
  proof
    assume "\<bar>of_int ?k / 100 :: rat\<bar> < EPS"
    then have "\<bar>of_int ?k :: rat\<bar> < 1" by (simp add: EPS_def)
    then have "\<bar>?k\<bar> < 1" by (metis of_int_abs of_int_less_1_iff)
    then show "?k = 0" by simp
  qed (simp add: EPS_def)
  then show ?thesis
    by (auto simp: qround_def py_round_def cents_def Let_def)
qed

lemma qround_cents: "qround (cents k) = cents k"
  by (simp add: qround_eq cents_def round_half_even_of_int)

lemma qround_cents_add: "qround (cents k + of_int s / 100) = cents (k + s)"
proof -
  have "(cents k + of_int s / 100) * 100 = of_int (k + s)" by (simp add: cents_def)
  then show ?thesis by (simp only: qround_eq round_half_even_of_int)
qed

lemma loop_cond_cents: "(1 / 100 - EPS \<le> \<bar>cents j\<bar>) \<longleftrightarrow> j \<noteq> 0"
proof
  assume "1 / 100 - EPS \<le> \<bar>cents j\<bar>"
  then show "j \<noteq> 0" by (auto simp: cents_def EPS_def)
next
  assume "j \<noteq> 0"
  then have "1 \<le> \<bar>j\<bar>" by simp
  then have "(1 :: rat) \<le> \<bar>of_int j\<bar>" by (metis of_int_abs of_int_1_le_iff)
  then show "1 / 100 - EPS \<le> \<bar>cents j\<bar>" by (simp add: cents_def EPS_def)
qed

lemma sum_list_update:
  "idx < length (xs :: rat list) \<Longrightarrow> sum_list (xs[idx := v]) = sum_list xs - xs ! idx + v"
  by (induction xs arbitrary: idx) (auto split: nat.splits)


lemma sum_list_cents_update:
  assumes "idx < length ks"
  shows "sum_list (map cents (ks[idx := ks ! idx + s])) = sum_list (map cents ks) + of_int s / 100"
proof -
  have "sum_list ((map cents ks)[idx := cents (ks ! idx + s)]) =
        sum_list (map cents ks) - map cents ks ! idx + cents (ks ! idx + s)"
    using assms by (simp add: sum_list_update)
  then show ?thesis using assms by (simp add: map_update cents_def add_divide_distrib)
qed

lemma adjust_loop_conserves:
  fixes s :: int
  assumes "s = 1 \<or> s = - 1"
    and "n = length ks" and "0 < n"
    and "shares = map cents ks"
    and "diff = qround (amount - sum_list shares)"
    and "step = of_int s / 100"
    and "- (1 / 2) \<le> of_int s * (100 * (amount - sum_list shares))"
    and "of_int s * (100 * (amount - sum_list shares)) \<le> 1 / 2 + of_nat (1000 - i)"
  shows "\<exists>ks'. adjust_loop amount n step shares diff i = Inr (map cents ks') \<and> length ks' = n \<and>
           \<bar>100 * (amount - sum_list (map cents ks'))\<bar> \<le> 1 / 2"
  using assms
proof (induction amount n step shares diff i arbitrary: ks rule: adjust_loop.induct)
  case (1 amount n step shares diff i)
  define R where "R = 100 * (amount - sum_list shares)"
  have sq: "\<bar>of_int s * R\<bar> = \<bar>R\<bar>" using "1.prems"(1) by auto
  have diff: "diff = cents (round_half_even R)"
    using "1.prems"(5) by (simp add: qround_eq R_def mult.commute)
  have lo: "- (1 / 2) \<le> of_int s * R" and hi: "of_int s * R \<le> 1 / 2 + of_nat (1000 - i)"
    using "1.prems"(7,8) by (simp_all add: R_def)
  show ?case
  proof (cases "1 / 100 - EPS \<le> \<bar>diff\<bar> \<and> i < 1000")
    case True
    let ?idx = "i mod n"
    let ?ks = "ks[?idx := ks ! ?idx + s]"
    let ?shares = "shares[?idx := qround (shares ! ?idx + step)]"
    have n0: "n \<noteq> 0" using "1.prems"(3) by simp
    have "?idx < n" using "1.prems"(3) by simp
    then have idx: "?idx < length ks" using "1.prems"(2) by simp
    then have nidx: "\<not> length shares \<le> ?idx" using "1.prems"(4) by simp
    have "round_half_even R \<noteq> 0" using True diff by (simp add: loop_cond_cents)
    then have "1 / 2 < \<bar>R\<bar>" by (simp add: round_half_even_zero_iff)
    with sq lo have big: "1 / 2 < of_int s * R" by linarith
    have "qround (shares ! ?idx + step) = cents (ks ! ?idx + s)"
      unfolding "1.prems"(4) "1.prems"(6) using idx by (simp only: nth_map qround_cents_add)
    then have sh: "?shares = map cents ?ks"
      unfolding "1.prems"(4) by (simp only: map_update)
    have sm: "sum_list ?shares = sum_list shares + of_int s / 100"
      unfolding sh using sum_list_cents_update[OF idx] "1.prems"(4) by simp
    have ss: "(of_int s :: rat) * of_int s = 1" using "1.prems"(1) by auto
    have R': "of_int s * (100 * (amount - sum_list ?shares)) = of_int s * R - 1"
      unfolding sm R_def using ss by (simp add: algebra_simps)
    have i: "i < 1000" using True by simp
    then have fuel: "(of_nat (1000 - i) :: rat) = of_nat (1000 - (i + 1)) + 1"
      by (simp add: of_nat_diff)
    have lo': "- (1 / 2) \<le> of_int s * (100 * (amount - sum_list ?shares))"
      unfolding R' using big by linarith
    have hi': "of_int s * (100 * (amount - sum_list ?shares)) \<le> 1 / 2 + of_nat (1000 - (i + 1))"
      unfolding R' using hi fuel by linarith
    have len: "n = length ?ks" using "1.prems"(2) by simp
    from "1.IH"[OF True n0 refl nidx refl refl "1.prems"(1) len "1.prems"(3) sh refl "1.prems"(6) lo' hi']
    obtain ks' where
      r: "adjust_loop amount n step ?shares (qround (amount - sum_list ?shares)) (i + 1) = Inr (map cents ks')"
      and l: "length ks' = n"
      and c: "\<bar>100 * (amount - sum_list (map cents ks'))\<bar> \<le> 1 / 2"
      by blast
    have "adjust_loop amount n step shares diff i = Inr (map cents ks')"
      using True n0 nidx r by (subst adjust_loop.simps) (simp add: Let_def)
    with l c show ?thesis by blast
  next
    case False
    have r: "adjust_loop amount n step shares diff i = Inr (map cents ks)"
      using False "1.prems"(4) by (subst adjust_loop.simps) auto
    have "\<bar>R\<bar> \<le> 1 / 2"
    proof (cases "i < 1000")
      case True
      with False have "\<not> 1 / 100 - EPS \<le> \<bar>diff\<bar>" by simp
      then have "round_half_even R = 0" using diff by (simp add: loop_cond_cents)
      then show ?thesis by (simp add: round_half_even_zero_iff)
    next
      case False
      then have "(of_nat (1000 - i) :: rat) = 0" by simp
      with hi lo sq show ?thesis by linarith
    qed
    then have "\<bar>100 * (amount - sum_list (map cents ks))\<bar> \<le> 1 / 2"
      using "1.prems"(4) by (simp add: R_def)
    with r "1.prems"(2) show ?thesis by blast
  qed
qed


lemma replicate_step:
  assumes "i < n"
  shows "(replicate i a @ replicate (n - i) b)[i := a] = replicate (Suc i) a @ replicate (n - Suc i) b"
    and "(replicate i a @ replicate (n - i) b) ! i = b"
proof -
  from assms have e: "replicate (n - i) b = b # replicate (n - Suc i) b"
    by (metis Suc_diff_Suc replicate_Suc)
  show "(replicate i a @ replicate (n - i) b)[i := a] = replicate (Suc i) a @ replicate (n - Suc i) b"
    unfolding e by (simp add: list_update_append replicate_append_same)
  show "(replicate i a @ replicate (n - i) b) ! i = b"
    unfolding e by (simp add: nth_append)
qed

lemma adjust_loop_equal_shape:
  fixes s :: int
  assumes "s = 1 \<or> s = - 1"
    and "0 < n" and "i \<le> n"
    and "shares = map cents (replicate i (r + s) @ replicate (n - i) r)"
    and "diff = qround (amount - sum_list shares)"
    and "step = of_int s / 100"
    and "- (1 / 2) \<le> of_int s * (100 * (amount - sum_list shares))"
    and "of_int s * (100 * (amount - sum_list shares)) + of_nat i \<le> of_nat n / 2"
  shows "\<exists>j \<le> n. adjust_loop amount n step shares diff i =
           Inr (map cents (replicate j (r + s) @ replicate (n - j) r))"
  using assms
proof (induction amount n step shares diff i rule: adjust_loop.induct)
  case (1 amount n step shares diff i)
  define R where "R = 100 * (amount - sum_list shares)"
  let ?ks = "replicate i (r + s) @ replicate (n - i) r"
  have sq: "\<bar>of_int s * R\<bar> = \<bar>R\<bar>" using "1.prems"(1) by auto
  have diff: "diff = cents (round_half_even R)"
    using "1.prems"(5) by (simp add: qround_eq R_def mult.commute)
  have lo: "- (1 / 2) \<le> of_int s * R" and hi: "of_int s * R + of_nat i \<le> of_nat n / 2"
    using "1.prems"(7,8) by (simp_all add: R_def)
  show ?case
  proof (cases "1 / 100 - EPS \<le> \<bar>diff\<bar> \<and> i < 1000")
    case True
    have n0: "n \<noteq> 0" using "1.prems"(2) by simp
    have "round_half_even R \<noteq> 0" using True diff by (simp add: loop_cond_cents)
    then have "1 / 2 < \<bar>R\<bar>" by (simp add: round_half_even_zero_iff)
    with sq lo have big: "1 / 2 < of_int s * R" by linarith
    with hi have "(of_nat i :: rat) < of_nat n" by linarith
    then have i: "i < n" by simp
    then have idx: "i mod n = i" by simp
    let ?ks' = "replicate (Suc i) (r + s) @ replicate (n - Suc i) r"
    let ?shares = "shares[i mod n := qround (shares ! (i mod n) + step)]"
    have len: "length ?ks = n" using i by simp
    have nidx: "\<not> length shares \<le> i mod n" using i idx "1.prems"(4) by simp
    have k: "?ks[i := ?ks ! i + s] = ?ks'"
      using replicate_step[OF i, of "r + s" r] by simp
    have q: "qround (map cents ?ks ! i + step) = cents (?ks ! i + s)"
      unfolding "1.prems"(6) using i len by (simp only: nth_map qround_cents_add)
    have sh0: "(map cents ?ks)[i := qround (map cents ?ks ! i + step)] = map cents (?ks[i := ?ks ! i + s])"
      by (simp only: q map_update)
    have sh: "?shares = map cents ?ks'"
      by (simp only: "1.prems"(4) idx sh0 k)
    have "sum_list (map cents (?ks[i := ?ks ! i + s])) = sum_list (map cents ?ks) + of_int s / 100"
      by (rule sum_list_cents_update) (use i len in simp)
    then have sk: "sum_list (map cents ?ks') = sum_list (map cents ?ks) + of_int s / 100"
      by (simp only: k)
    have sm: "sum_list ?shares = sum_list shares + of_int s / 100"
    proof -
      have "sum_list ?shares = sum_list (map cents ?ks')" by (rule arg_cong[OF sh])
      also have "\<dots> = sum_list (map cents ?ks) + of_int s / 100" by (rule sk)
      also have "map cents ?ks = shares" by (rule "1.prems"(4)[symmetric])
      finally show ?thesis .
    qed
    have ss: "(of_int s :: rat) * of_int s = 1" using "1.prems"(1) by auto
    have R': "of_int s * (100 * (amount - sum_list ?shares)) = of_int s * R - 1"
      unfolding sm R_def using ss by (simp add: algebra_simps)
    have lo': "- (1 / 2) \<le> of_int s * (100 * (amount - sum_list ?shares))"
      unfolding R' using big by linarith
    have hi': "of_int s * (100 * (amount - sum_list ?shares)) + of_nat (i + 1) \<le> of_nat n / 2"
      unfolding R' using hi by simp
    have i': "i + 1 \<le> n" using i by simp
    have sh': "?shares = map cents (replicate (i + 1) (r + s) @ replicate (n - (i + 1)) r)"
      using sh by simp
    from "1.IH"[OF True n0 refl nidx refl refl "1.prems"(1) "1.prems"(2) i' sh' refl "1.prems"(6) lo' hi']
    obtain j where j: "j \<le> n"
      and r: "adjust_loop amount n step ?shares (qround (amount - sum_list ?shares)) (i + 1) =
                Inr (map cents (replicate j (r + s) @ replicate (n - j) r))"
      by blast
    have "adjust_loop amount n step shares diff i =
            Inr (map cents (replicate j (r + s) @ replicate (n - j) r))"
      using True n0 nidx r by (subst adjust_loop.simps) (simp add: Let_def)
    with j show ?thesis by blast
  next
    case False
    have "adjust_loop amount n step shares diff i = Inr (map cents ?ks)"
      using False "1.prems"(4) by (subst adjust_loop.simps) auto
    with "1.prems"(3) show ?thesis by blast
  qed
qed


lemma start_direction:
  fixes amount :: rat and shares :: "rat list"
  defines "R \<equiv> 100 * (amount - sum_list shares)"
  defines "diff \<equiv> qround (amount - sum_list shares)"
  defines "s \<equiv> (if 0 < diff then 1 else - 1 :: int)"
  assumes b: "\<bar>R\<bar> \<le> B"
  shows "(if 0 < diff then 1 / 100 else - (1 / 100)) = (of_int s :: rat) / 100"
    and "s = 1 \<or> s = - 1"
    and "- (1 / 2) \<le> of_int s * R"
    and "of_int s * R \<le> B"
proof -
  have d: "diff = cents (round_half_even R)"
    by (simp add: diff_def R_def qround_eq mult.commute)
  show "(if 0 < diff then 1 / 100 else - (1 / 100)) = (of_int s :: rat) / 100"
    by (simp add: s_def)
  show "s = 1 \<or> s = - 1" by (simp add: s_def)
  show "- (1 / 2) \<le> of_int s * R"
  proof (cases "0 < diff")
    case True
    then have "0 < round_half_even R" by (simp add: d cents_def)
    then have "(1 :: rat) \<le> of_int (round_half_even R)" by simp
    with round_half_even_bounds[of R] have "1 / 2 \<le> R" by linarith
    with True show ?thesis by (simp add: s_def)
  next
    case False
    then have "round_half_even R \<le> 0" by (simp add: d cents_def)
    then have "(of_int (round_half_even R) :: rat) \<le> 0" by simp
    with round_half_even_bounds[of R] have "R \<le> 1 / 2" by linarith
    with False show ?thesis by (simp add: s_def)
  qed
  show "of_int s * R \<le> B"
    using b by (cases "0 < diff") (auto simp: s_def)
qed

lemma sum_rounding_error:
  "\<bar>sum_list xs - sum_list (map (\<lambda>x. of_int (round_half_even x)) xs)\<bar> \<le> of_nat (length xs) / 2"
proof (induction xs)
  case Nil
  then show ?case by simp
next
  case (Cons x xs)
  let ?e = "sum_list xs - sum_list (map (\<lambda>x. of_int (round_half_even x)) xs)"
  have a: "\<bar>x - of_int (round_half_even x)\<bar> \<le> 1 / 2"
    using round_half_even_bounds[of x] by linarith
  have "sum_list (x # xs) - sum_list (map (\<lambda>x. of_int (round_half_even x)) (x # xs)) =
        (x - of_int (round_half_even x)) + ?e"
    by simp
  then have "\<bar>sum_list (x # xs) - sum_list (map (\<lambda>x. of_int (round_half_even x)) (x # xs))\<bar>
      \<le> \<bar>x - of_int (round_half_even x)\<bar> + \<bar>?e\<bar>"
    by (simp only: abs_triangle_ineq)
  also have "\<dots> \<le> 1 / 2 + of_nat (length xs) / 2"
    using a Cons.IH by linarith
  also have "\<dots> = of_nat (length (x # xs)) / 2" by (simp add: add_divide_distrib)
  finally show ?case .
qed

lemma sum_list_cents: "sum_list (map cents ks) = sum_list (map of_int ks) / 100"
  by (induction ks) (simp_all add: cents_def add_divide_distrib)

lemma values_of_zip: "length ys = length xs \<Longrightarrow> values_of (zip xs ys) = ys"
  by (simp add: values_of_def)

text \<open>The state in which \<open>EqualSplit.split\<close> enters its loop.\<close>

lemma EqualSplit_start:
  fixes amount :: rat
  assumes "0 < n"
  defines "r \<equiv> round_half_even (amount / of_nat n * 100)"
  shows "replicate n (qround (amount / of_nat n)) = map cents (replicate n r)"
    and "\<bar>100 * (amount - sum_list (map cents (replicate n r)))\<bar> \<le> of_nat n / 2"
proof -
  show "replicate n (qround (amount / of_nat n)) = map cents (replicate n r)"
    by (simp add: qround_eq r_def)
  have b: "\<bar>amount / of_nat n * 100 - of_int r\<bar> \<le> 1 / 2"
    using round_half_even_bounds[of "amount / of_nat n * 100"] unfolding r_def by linarith
  have "100 * (amount - sum_list (map cents (replicate n r))) =
        of_nat n * (amount / of_nat n * 100 - of_int r)"
    using assms(1) by (simp add: sum_list_replicate cents_def algebra_simps)
  then have "\<bar>100 * (amount - sum_list (map cents (replicate n r)))\<bar> =
        of_nat n * \<bar>amount / of_nat n * 100 - of_int r\<bar>"
    by (simp add: abs_mult)
  also have "\<dots> \<le> of_nat n * (1 / 2)"
    by (rule mult_left_mono[OF b]) simp
  finally show "\<bar>100 * (amount - sum_list (map cents (replicate n r)))\<bar> \<le> of_nat n / 2"
    by simp
qed

lemma EqualSplit_split_unfold:
  assumes "participants \<noteq> []"
  shows "EqualSplit_split amount participants =
    (case adjust_loop amount (length participants)
            (if 0 < qround (amount - sum_list (replicate (length participants)
                                                 (qround (amount / of_nat (length participants)))))
             then 1 / 100 else - (1 / 100))
            (replicate (length participants) (qround (amount / of_nat (length participants))))
            (qround (amount - sum_list (replicate (length participants)
                                          (qround (amount / of_nat (length participants))))))
            0 of
       Inl e \<Rightarrow> Inl e
     | Inr shares' \<Rightarrow> Inr (zip (keys participants) shares'))"
proof -
  have l: "length (keys participants) = length participants" by (simp add: keys_def)
  have m: "map (\<lambda>_. c) (keys participants) = replicate (length participants) c" for c :: rat
    by (simp add: map_replicate_const l)
  show ?thesis
    using assms unfolding EqualSplit_split_def Let_def l m by simp
qed

lemma EqualSplit_split_shape:
  assumes "participants \<noteq> []"
  shows "\<exists>(s :: int) r j. (s = 1 \<or> s = - 1) \<and> j \<le> length participants \<and>
           EqualSplit_split amount participants =
             Inr (zip (keys participants)
                    (map cents (replicate j (r + s) @ replicate (length participants - j) r)))"
proof -
  let ?n = "length participants"
  define r where "r = round_half_even (amount / of_nat ?n * 100)"
  let ?shares = "map cents (replicate ?n r)"
  define diff where "diff = qround (amount - sum_list ?shares)"
  define s :: int where "s = (if 0 < diff then 1 else - 1)"
  have n: "0 < ?n" using assms by simp
  note st = EqualSplit_start[OF n, of amount, folded r_def]
  note dir = start_direction[OF st(2), folded diff_def, folded s_def]
  have sh: "?shares = map cents (replicate 0 (r + s) @ replicate (?n - 0) r)" by simp
  have hi: "of_int s * (100 * (amount - sum_list ?shares)) + of_nat 0 \<le> of_nat ?n / 2"
    using dir(4) by simp
  from adjust_loop_equal_shape[OF dir(2) n _ sh diff_def refl dir(3) hi]
  obtain j where j: "j \<le> ?n" and
    r: "adjust_loop amount ?n (of_int s / 100) ?shares diff 0 =
          Inr (map cents (replicate j (r + s) @ replicate (?n - j) r))"
    by auto
  have "EqualSplit_split amount participants =
          Inr (zip (keys participants) (map cents (replicate j (r + s) @ replicate (?n - j) r)))"
    unfolding EqualSplit_split_unfold[OF assms] st(1) diff_def[symmetric] dir(1)
    by (simp only: r sum.case)
  with j dir(2) show ?thesis by blast
qed

lemma EqualSplit_split_conserves:
  assumes "participants \<noteq> []" and "length participants \<le> 2001"
  shows "\<exists>ks. EqualSplit_split amount participants = Inr (zip (keys participants) (map cents ks)) \<and>
           length ks = length participants \<and>
           \<bar>100 * (amount - sum_list (map cents ks))\<bar> \<le> 1 / 2"
proof -
  let ?n = "length participants"
  define r where "r = round_half_even (amount / of_nat ?n * 100)"
  let ?shares = "map cents (replicate ?n r)"
  define diff where "diff = qround (amount - sum_list ?shares)"
  define s :: int where "s = (if 0 < diff then 1 else - 1)"
  have n: "0 < ?n" using assms by simp
  note st = EqualSplit_start[OF n, of amount, folded r_def]
  note dir = start_direction[OF st(2), folded diff_def, folded s_def]
  have "(of_nat ?n :: rat) \<le> 2001" using assms(2) by (metis of_nat_le_iff of_nat_numeral)
  with dir(4) have hi: "of_int s * (100 * (amount - sum_list ?shares)) \<le> 1 / 2 + of_nat (1000 - 0)"
    by simp
  have len: "?n = length (replicate ?n r)" by simp
  from adjust_loop_conserves[OF dir(2) len n refl diff_def refl dir(3) hi]
  obtain ks where
    r: "adjust_loop amount ?n (of_int s / 100) ?shares diff 0 = Inr (map cents ks)"
    and l: "length ks = ?n" and c: "\<bar>100 * (amount - sum_list (map cents ks))\<bar> \<le> 1 / 2"
    by auto
  have "EqualSplit_split amount participants = Inr (zip (keys participants) (map cents ks))"
    unfolding EqualSplit_split_unfold[OF assms(1)] st(1) diff_def[symmetric] dir(1)
    by (simp only: r sum.case)
  with l c show ?thesis by blast
qed


lemma sum_list_cents_int: "sum_list (map cents ks) = cents (sum_list ks)"
  by (induction ks) (simp_all add: cents_def add_divide_distrib)

lemma cents_close_eq:
  assumes "\<bar>100 * (cents k - cents j)\<bar> \<le> 1 / 2"
  shows "k = j"
proof -
  have "100 * (cents k - cents j) = of_int (k - j)" by (simp add: cents_def)
  with assms have "\<bar>(of_int (k - j) :: rat)\<bar> < 1" by linarith
  then have "\<bar>k - j\<bar> < 1" by (metis of_int_abs of_int_less_1_iff)
  then show ?thesis by simp
qed

lemma conserved_at_cents:
  assumes "\<bar>100 * (amount - sum_list (map cents ks))\<bar> \<le> 1 / 2"
  shows "\<bar>amount - sum_list (map cents ks)\<bar> \<le> 1 / 200"
    and "qround amount = amount \<Longrightarrow> sum_list (map cents ks) = amount"
proof -
  define e where "e = amount - sum_list (map cents ks)"
  have "\<bar>100 * e\<bar> = 100 * \<bar>e\<bar>" by (simp add: abs_mult)
  with assms have "100 * \<bar>e\<bar> \<le> 1 / 2" by (simp add: e_def)
  then have "\<bar>e\<bar> \<le> 1 / 200" by simp
  then show "\<bar>amount - sum_list (map cents ks)\<bar> \<le> 1 / 200" by (simp add: e_def)
  assume "qround amount = amount"
  then have a: "amount = cents (round_half_even (amount * 100))" by (simp add: qround_eq)
  define k where "k = round_half_even (amount * 100)"
  from a have ak: "amount = cents k" by (simp add: k_def)
  from assms have "\<bar>100 * (cents k - cents (sum_list ks))\<bar> \<le> 1 / 2"
    by (simp only: ak sum_list_cents_int)
  then have "k = sum_list ks" by (rule cents_close_eq)
  then show "sum_list (map cents ks) = amount" by (simp only: ak sum_list_cents_int)
qed

text \<open>The state in which \<open>ShareSplit.split\<close> enters its loop.\<close>

lemma Share_shares:
  "map (\<lambda>(u, r). qround r) (map (\<lambda>(k, w). (k, amount * (w / W))) ps) =
   map cents (map (\<lambda>(k, w). round_half_even (amount * (w / W) * 100)) ps)"
  by (induction ps) (auto simp: qround_eq)

lemma Share_keys: "keys (map (\<lambda>(k, w). (k, f w)) ps) = keys ps"
  by (induction ps) (auto simp: keys_def)

lemma Share_sum:
  fixes W :: rat
  shows "sum_list (map (\<lambda>(k, w). amount * (w / W) * 100) ps) =
         100 * amount * (sum_list (values_of ps) / W)"
  by (induction ps) (auto simp: values_of_def algebra_simps add_divide_distrib)

lemma Share_bound:
  fixes W :: rat
  assumes "W = sum_list (values_of ps)" and "W \<noteq> 0"
  shows "\<bar>100 * (amount - sum_list (map cents
            (map (\<lambda>(k, w). round_half_even (amount * (w / W) * 100)) ps)))\<bar>
         \<le> of_nat (length ps) / 2"
proof -
  let ?xs = "map (\<lambda>(k, w). amount * (w / W) * 100) ps"
  have m: "map (\<lambda>(k, w). round_half_even (amount * (w / W) * 100)) ps = map round_half_even ?xs"
    by (induction ps) auto
  have "sum_list ?xs = 100 * amount * (sum_list (values_of ps) / W)"
    by (rule Share_sum)
  also have "sum_list (values_of ps) / W = 1" using assms by simp
  finally have s: "sum_list ?xs = 100 * amount" by simp
  have "100 * (amount - sum_list (map cents (map round_half_even ?xs))) =
        sum_list ?xs - sum_list (map (\<lambda>x. of_int (round_half_even x)) ?xs)"
    unfolding s sum_list_cents by (simp add: comp_def)
  then show ?thesis
    unfolding m using sum_rounding_error[of ?xs] by simp
qed

lemma sum_list_positive: "ws \<noteq> [] \<Longrightarrow> \<forall>w \<in> set ws. 0 < w \<Longrightarrow> 0 < sum_list (ws :: rat list)"
proof (induction ws)
  case Nil
  then show ?case by simp
next
  case (Cons w ws)
  show ?case
  proof (cases "ws = []")
    case True
    with Cons.prems show ?thesis by simp
  next
    case False
    with Cons have "0 < sum_list ws" by simp
    with Cons.prems show ?thesis by simp
  qed
qed

lemma positive_weights_sum:
  assumes "ps \<noteq> []" and "\<not> list_ex (\<lambda>w. w \<le> 0) (values_of ps)"
  shows "0 < sum_list (values_of ps :: rat list)"
proof -
  have "\<forall>w \<in> set (values_of ps). 0 < w" using assms(2) by (auto simp: list_ex_iff not_le)
  moreover have "values_of ps \<noteq> []" using assms(1) by (simp add: values_of_def)
  ultimately show ?thesis by (simp add: sum_list_positive)
qed


lemma ShareSplit_split_unfold:
  assumes "participants \<noteq> []" and "\<not> list_ex (\<lambda>w. w \<le> 0) (values_of participants)"
    and Wd: "W = sum_list (values_of participants)"
    and sd: "shares = map cents (map (\<lambda>(k, w). round_half_even (amount * (w / W) * 100)) participants)"
  shows "ShareSplit_split amount participants =
    (case adjust_loop amount (length participants)
            (if 0 < qround (amount - sum_list shares) then 1 / 100 else - (1 / 100))
            shares (qround (amount - sum_list shares)) 0 of
       Inl e \<Rightarrow> Inl e
     | Inr shares' \<Rightarrow> Inr (zip (keys participants) shares'))"
proof -
  have W: "sum_list (values_of participants) \<noteq> 0"
    using positive_weights_sum[OF assms(1,2)] by simp
  have l: "length (keys participants) = length participants" by (simp add: keys_def)
  show ?thesis
    using assms(1,2) W
    unfolding ShareSplit_split_def Let_def Share_shares Share_keys l sd Wd
    by simp
qed

lemma ShareSplit_split_conserves:
  assumes "participants \<noteq> []" and "\<not> list_ex (\<lambda>w. w \<le> 0) (values_of participants)"
    and "length participants \<le> 2001"
  shows "\<exists>ks. ShareSplit_split amount participants = Inr (zip (keys participants) (map cents ks)) \<and>
           length ks = length participants \<and>
           \<bar>100 * (amount - sum_list (map cents ks))\<bar> \<le> 1 / 2"
proof -
  let ?n = "length participants"
  define W where "W = sum_list (values_of participants)"
  define ks0 where "ks0 = map (\<lambda>(k, w). round_half_even (amount * (w / W) * 100)) participants"
  let ?shares = "map cents ks0"
  define diff where "diff = qround (amount - sum_list ?shares)"
  define s :: int where "s = (if 0 < diff then 1 else - 1)"
  have n: "0 < ?n" using assms(1) by simp
  have W: "W \<noteq> 0" using positive_weights_sum[OF assms(1,2)] by (simp add: W_def)
  have b: "\<bar>100 * (amount - sum_list ?shares)\<bar> \<le> of_nat ?n / 2"
    unfolding ks0_def by (rule Share_bound[OF W_def W])
  note dir = start_direction[OF b, folded diff_def, folded s_def]
  have "(of_nat ?n :: rat) \<le> 2001" using assms(3) by (metis of_nat_le_iff of_nat_numeral)
  with dir(4) have hi: "of_int s * (100 * (amount - sum_list ?shares)) \<le> 1 / 2 + of_nat (1000 - 0)"
    by simp
  have len: "?n = length ks0" by (simp add: ks0_def)
  from adjust_loop_conserves[OF dir(2) len n refl diff_def refl dir(3) hi]
  obtain ks where
    r: "adjust_loop amount ?n (of_int s / 100) ?shares diff 0 = Inr (map cents ks)"
    and l: "length ks = ?n" and c: "\<bar>100 * (amount - sum_list (map cents ks))\<bar> \<le> 1 / 2"
    by auto
  have "ShareSplit_split amount participants = Inr (zip (keys participants) (map cents ks))"
    unfolding ShareSplit_split_unfold[OF assms(1,2) W_def refl, of amount] ks0_def[symmetric]
      diff_def[symmetric] dir(1)
    by (simp only: r sum.case)
  with l c show ?thesis by blast
qed

text \<open>
  The loop at its cap: while more than the steps that are left would be needed, every
  step is made, and after the thousandth the loop ends with the rest not distributed.
\<close>

lemma adjust_loop_capped:
  fixes s :: int
  assumes "s = 1 \<or> s = - 1"
    and "1000 \<le> n" and "i \<le> 1000"
    and "shares = map cents (replicate i (r + s) @ replicate (n - i) r)"
    and "diff = qround (amount - sum_list shares)"
    and "step = of_int s / 100"
    and "of_nat (1000 - i) < of_int s * (100 * (amount - sum_list shares))"
  shows "adjust_loop amount n step shares diff i =
           Inr (map cents (replicate 1000 (r + s) @ replicate (n - 1000) r))"
  using assms
proof (induction amount n step shares diff i rule: adjust_loop.induct)
  case (1 amount n step shares diff i)
  define R where "R = 100 * (amount - sum_list shares)"
  let ?ks = "replicate i (r + s) @ replicate (n - i) r"
  have sq: "\<bar>of_int s * R\<bar> = \<bar>R\<bar>" using "1.prems"(1) by auto
  have diff: "diff = cents (round_half_even R)"
    using "1.prems"(5) by (simp add: qround_eq R_def mult.commute)
  have hi: "of_nat (1000 - i) < of_int s * R"
    using "1.prems"(7) by (simp add: R_def)
  show ?case
  proof (cases "i < 1000")
    case True
    then have fuel: "(of_nat (1000 - i) :: rat) = of_nat (1000 - (i + 1)) + 1"
      by (simp add: of_nat_diff)
    have "(0 :: rat) \<le> of_nat (1000 - (i + 1))" by simp
    with fuel hi have big: "1 < of_int s * R" by linarith
    with sq have "1 / 2 < \<bar>R\<bar>" by linarith
    then have "round_half_even R \<noteq> 0" by (simp add: round_half_even_zero_iff)
    then have c: "1 / 100 - EPS \<le> \<bar>diff\<bar> \<and> i < 1000"
      using True diff by (simp add: loop_cond_cents)
    have n0: "n \<noteq> 0" using "1.prems"(2) by simp
    have i: "i < n" using True "1.prems"(2) by simp
    then have idx: "i mod n = i" by simp
    let ?ks' = "replicate (Suc i) (r + s) @ replicate (n - Suc i) r"
    let ?shares = "shares[i mod n := qround (shares ! (i mod n) + step)]"
    have len: "length ?ks = n" using i by simp
    have nidx: "\<not> length shares \<le> i mod n" using i idx "1.prems"(4) by simp
    have k: "?ks[i := ?ks ! i + s] = ?ks'"
      using replicate_step[OF i, of "r + s" r] by simp
    have q: "qround (map cents ?ks ! i + step) = cents (?ks ! i + s)"
      unfolding "1.prems"(6) using i len by (simp only: nth_map qround_cents_add)
    have sh0: "(map cents ?ks)[i := qround (map cents ?ks ! i + step)] = map cents (?ks[i := ?ks ! i + s])"
      by (simp only: q map_update)
    have sh: "?shares = map cents ?ks'"
      by (simp only: "1.prems"(4) idx sh0 k)
    have "sum_list (map cents (?ks[i := ?ks ! i + s])) = sum_list (map cents ?ks) + of_int s / 100"
      by (rule sum_list_cents_update) (use i len in simp)
    then have sk: "sum_list (map cents ?ks') = sum_list (map cents ?ks) + of_int s / 100"
      by (simp only: k)
    have sm: "sum_list ?shares = sum_list shares + of_int s / 100"
    proof -
      have "sum_list ?shares = sum_list (map cents ?ks')" by (rule arg_cong[OF sh])
      also have "\<dots> = sum_list (map cents ?ks) + of_int s / 100" by (rule sk)
      also have "map cents ?ks = shares" by (rule "1.prems"(4)[symmetric])
      finally show ?thesis .
    qed
    have ss: "(of_int s :: rat) * of_int s = 1" using "1.prems"(1) by auto
    have R': "of_int s * (100 * (amount - sum_list ?shares)) = of_int s * R - 1"
      unfolding sm R_def using ss by (simp add: algebra_simps)
    have hi': "of_nat (1000 - (i + 1)) < of_int s * (100 * (amount - sum_list ?shares))"
      unfolding R' using hi fuel by linarith
    have i': "i + 1 \<le> 1000" using True by simp
    have sh': "?shares = map cents (replicate (i + 1) (r + s) @ replicate (n - (i + 1)) r)"
      using sh by simp
    from "1.IH"[OF c n0 refl nidx refl refl "1.prems"(1) "1.prems"(2) i' sh' refl "1.prems"(6) hi']
    have r: "adjust_loop amount n step ?shares (qround (amount - sum_list ?shares)) (i + 1) =
               Inr (map cents (replicate 1000 (r + s) @ replicate (n - 1000) r))" .
    show ?thesis
      using c n0 nidx r by (subst adjust_loop.simps) (simp add: Let_def)
  next
    case False
    with "1.prems"(3) have e: "i = 1000" by simp
    have "adjust_loop amount n step shares diff i = Inr shares"
      using False by (subst adjust_loop.simps) simp
    then show ?thesis using "1.prems"(4) e by simp
  qed
qed

lemma EqualSplit_split_capped:
  assumes "1000 < 100 * amount" and "100 * amount < of_nat (length participants) / 2"
  shows "EqualSplit_split amount participants =
           Inr (zip (keys participants)
                  (map cents (replicate 1000 1 @ replicate (length participants - 1000) 0)))"
proof -
  let ?n = "length participants"
  define r where "r = round_half_even (amount / of_nat ?n * 100)"
  let ?shares = "map cents (replicate ?n r)"
  define diff where "diff = qround (amount - sum_list ?shares)"
  have "(2000 :: rat) < of_nat ?n" using assms by linarith
  then have "2000 < ?n" by (metis of_nat_less_iff of_nat_numeral)
  then have n: "0 < ?n" and n1000: "1000 \<le> ?n" and ne: "participants \<noteq> []" by auto
  have np: "(0 :: rat) < of_nat ?n" using n by simp
  define x where "x = amount / of_nat ?n * 100"
  have xe: "x = 100 * amount / of_nat ?n" by (simp add: x_def)
  have "0 < 100 * amount" using assms(1) by linarith
  then have x0: "0 < x" unfolding xe using np by (rule divide_pos_pos)
  have x1: "x < 1 / 2"
    unfolding xe using assms(2) np by (simp add: pos_divide_less_eq)
  from x0 x1 have "\<bar>x\<bar> \<le> 1 / 2" by linarith
  then have "round_half_even x = 0" by (simp only: round_half_even_zero_iff)
  then have r0: "r = 0" by (simp only: r_def x_def)
  note st = EqualSplit_start[OF n, of amount, folded r_def]
  have s0: "sum_list ?shares = 0" by (simp add: r0 cents_def sum_list_replicate)
  have d: "diff = cents (round_half_even (amount * 100))"
    unfolding diff_def s0 by (simp add: qround_eq)
  have "amount * 100 \<le> of_int (round_half_even (amount * 100)) + 1 / 2"
    using round_half_even_bounds[of "amount * 100"] by simp
  with assms(1) have "(0 :: rat) < of_int (round_half_even (amount * 100))" by linarith
  then have dpos: "0 < diff" by (simp add: d cents_def)
  have sh: "?shares = map cents (replicate 0 (r + 1) @ replicate (?n - 0) r)" by simp
  have hi: "of_nat (1000 - 0) < of_int 1 * (100 * (amount - sum_list ?shares))"
    using assms(1) s0 by simp
  have st1: "(1 :: int) = 1 \<or> (1 :: int) = - 1" by simp
  have z: "(0 :: nat) \<le> 1000" by simp
  from adjust_loop_capped[OF st1 n1000 z sh diff_def refl hi]
  have "adjust_loop amount ?n (1 / 100) ?shares diff 0 =
          Inr (map cents (replicate 1000 1 @ replicate (?n - 1000) 0))"
    by (simp add: r0)
  then show ?thesis
    unfolding EqualSplit_split_unfold[OF ne] st(1) diff_def[symmetric]
    using dpos by simp
qed

lemma crowd_length: "length crowd = 3000"
  by (simp add: crowd_def)

lemma crowd_distinct: "distinct (keys crowd)"
proof -
  have "inj_on (\<lambda>i. replicate (Suc i) CHR ''u'') (set [0..<3000])"
    by (rule inj_onI) (metis length_replicate nat.inject)
  then show ?thesis
    by (simp add: crowd_def keys_def comp_def distinct_map)
qed

lemma crowd_capped:
  "EqualSplit_split 12 crowd =
     Inr (zip (keys crowd) (map cents (replicate 1000 1 @ replicate 2000 0)))"
  using EqualSplit_split_capped[of 12 crowd] by (simp add: crowd_length)

lemma crowd_sum:
  "sum_list (values_of (zip (keys crowd) (map cents (replicate 1000 1 @ replicate 2000 0)))) = 10"
proof -
  have l: "length (map cents (replicate 1000 1 @ replicate 2000 0)) = length (keys crowd)"
    by (simp add: keys_def crowd_length)
  show ?thesis
    unfolding values_of_zip[OF l] by (simp add: sum_list_replicate cents_def)
qed

lemma whole_cent_weights:
  "list_all (\<lambda>w. qround w = w) (values_of participants) \<Longrightarrow>
   map (\<lambda>(name, v). (name, qround v)) participants = participants"
  by (induction participants) (auto simp: values_of_def)

text \<open>
  C1, as the code has it. For the equal and the share split of an amount that is a whole
  number of cents among at most 2001 participants (so that the cap of 1000 steps of the
  redistribution loop is never what ends it; for the share split every weight positive),
  the allocation has the participants' keys and its sum is the amount. The exact split
  of weights that are whole numbers of cents redistributes nothing: what it returns, when
  it returns, is the weights themselves, so the sum is within \<open>0.01 + EPS\<close> of the
  amount, and is the amount exactly when the weights total it; and it does return when
  they total it.
\<close>

theorem split_conservation:
  "((strategy = EqualSplit \<or>
      strategy = ShareSplit \<and> \<not> list_ex (\<lambda>w. w \<le> 0) (values_of participants)) \<and>
     participants \<noteq> [] \<and> length participants \<le> 2001 \<and> qround amount = amount \<longrightarrow>
      (\<exists>alloc. split strategy amount participants = Inr alloc \<and>
         keys alloc = keys participants \<and>
         sum_list (values_of alloc) = amount)) \<and>
   (list_all (\<lambda>w. qround w = w) (values_of participants) \<and>
    split ExactSplit amount participants = Inr alloc' \<longrightarrow>
      alloc' = participants \<and>
      \<bar>sum_list (values_of alloc') - amount\<bar> \<le> 1 / 100 + EPS \<and>
      (sum_list (values_of alloc') = amount) = (sum_list (values_of participants) = amount)) \<and>
   (list_all (\<lambda>w. qround w = w) (values_of participants) \<and>
    sum_list (values_of participants) = amount \<longrightarrow>
      split ExactSplit amount participants = Inr participants)"
proof (intro conjI impI)
  assume a: "(strategy = EqualSplit \<or>
      strategy = ShareSplit \<and> \<not> list_ex (\<lambda>w. w \<le> 0) (values_of participants)) \<and>
     participants \<noteq> [] \<and> length participants \<le> 2001 \<and> qround amount = amount"
  then have ne: "participants \<noteq> []" and le: "length participants \<le> 2001"
    and wc: "qround amount = amount" by simp_all
  have "\<exists>ks. split strategy amount participants = Inr (zip (keys participants) (map cents ks)) \<and>
           length ks = length participants \<and>
           \<bar>100 * (amount - sum_list (map cents ks))\<bar> \<le> 1 / 2"
    using a EqualSplit_split_conserves[OF ne le, of amount]
      ShareSplit_split_conserves[OF ne _ le, of amount]
    by (auto simp: split_def)
  then obtain ks where
    r: "split strategy amount participants = Inr (zip (keys participants) (map cents ks))"
    and l: "length ks = length participants"
    and c: "\<bar>100 * (amount - sum_list (map cents ks))\<bar> \<le> 1 / 2"
    by blast
  have lk: "length (map cents ks) = length (keys participants)" using l by (simp add: keys_def)
  have v: "values_of (zip (keys participants) (map cents ks)) = map cents ks"
    by (rule values_of_zip[OF lk])
  have k: "keys (zip (keys participants) (map cents ks)) = keys participants"
    using lk by (simp add: keys_def)
  show "\<exists>alloc. split strategy amount participants = Inr alloc \<and>
         keys alloc = keys participants \<and> sum_list (values_of alloc) = amount"
    using r k conserved_at_cents(2)[OF c wc]
    by (intro exI[of _ "zip (keys participants) (map cents ks)"]) (simp add: v)
next
  assume a: "list_all (\<lambda>w. qround w = w) (values_of participants) \<and>
             split ExactSplit amount participants = Inr alloc'"
  then have w: "map (\<lambda>(name, v). (name, qround v)) participants = participants"
    by (simp add: whole_cent_weights)
  from a have t: "\<not> 1 / 100 + EPS < \<bar>sum_list (values_of participants) - amount\<bar>"
    and e: "alloc' = map (\<lambda>(name, v). (name, qround v)) participants"
    by (auto simp: split_def ExactSplit_split_def Let_def split: if_splits)
  from e w have p: "alloc' = participants" by simp
  show "alloc' = participants" by (rule p)
  show "\<bar>sum_list (values_of alloc') - amount\<bar> \<le> 1 / 100 + EPS"
    using t unfolding p by simp
  show "(sum_list (values_of alloc') = amount) = (sum_list (values_of participants) = amount)"
    unfolding p by simp
next
  assume a: "list_all (\<lambda>w. qround w = w) (values_of participants) \<and>
             sum_list (values_of participants) = amount"
  then have w: "map (\<lambda>(name, v). (name, qround v)) participants = participants"
    by (simp add: whole_cent_weights)
  from a have "\<not> 1 / 100 + EPS < \<bar>sum_list (values_of participants) - amount\<bar>"
    by (simp add: EPS_def)
  then show "split ExactSplit amount participants = Inr participants"
    by (simp add: split_def ExactSplit_split_def Let_def w)
qed

theorem split_conservation_witness:
  "(\<exists>alloc. split EqualSplit 10 [(''A'', 1), (''B'', 1), (''C'', 1)] = Inr alloc \<and>
      keys alloc = [''A'', ''B'', ''C''] \<and> sum_list (values_of alloc) = 10) \<and>
   (\<exists>alloc. split ShareSplit 10 [(''A'', 1), (''B'', 2)] = Inr alloc \<and>
      keys alloc = [''A'', ''B''] \<and> sum_list (values_of alloc) = 10) \<and>
   split ExactSplit 50 [(''you'', 20), (''other'', 30)] = Inr [(''you'', 20), (''other'', 30)] \<and>
   sum_list (values_of [(''you'', 20), (''other'', 30 :: rat)]) = 50 \<and>
   split ExactSplit 50 weights_near = Inr weights_near \<and>
   \<bar>sum_list (values_of weights_near) - 50\<bar> \<le> 1 / 100 + EPS \<and>
   sum_list (values_of weights_near) \<noteq> 50"
proof -
  let ?ps = "[(''A'', 1), (''B'', 1), (''C'', 1 :: rat)]"
  let ?ws = "[(''A'', 1), (''B'', 2 :: rat)]"
  let ?qs = "[(''you'', 20), (''other'', 30 :: rat)]"
  have q: "qround 10 = 10" by code_simp
  have h: "(EqualSplit = EqualSplit \<or>
      EqualSplit = ShareSplit \<and> \<not> list_ex (\<lambda>w. w \<le> 0) (values_of ?ps)) \<and>
     ?ps \<noteq> [] \<and> length ?ps \<le> 2001 \<and> qround 10 = 10"
    using q by simp
  have g: "(ShareSplit = EqualSplit \<or>
      ShareSplit = ShareSplit \<and> \<not> list_ex (\<lambda>w. w \<le> 0) (values_of ?ws)) \<and>
     ?ws \<noteq> [] \<and> length ?ws \<le> 2001 \<and> qround 10 = 10"
    using q by (simp add: values_of_def)
  have wq: "list_all (\<lambda>w. qround w = w) (values_of ?qs)" by code_simp
  have sq: "sum_list (values_of ?qs) = 50" by (simp add: values_of_def)
  have wn: "list_all (\<lambda>w. qround w = w) (values_of weights_near)" by code_simp
  have en: "split ExactSplit 50 weights_near = Inr weights_near" by code_simp
  have nn: "sum_list (values_of weights_near) \<noteq> 50" by code_simp
  note c = split_conservation[where strategy = EqualSplit and participants = ?ps and amount = 10]
  note d = split_conservation[where strategy = ShareSplit and participants = ?ws and amount = 10]
  note x = split_conservation[where participants = ?qs and amount = 50]
  note y = split_conservation[where participants = weights_near and amount = 50
             and alloc' = weights_near]
  from c h have "\<exists>alloc. split EqualSplit 10 ?ps = Inr alloc \<and>
      keys alloc = keys ?ps \<and> sum_list (values_of alloc) = 10"
    by blast
  moreover have "keys ?ps = [''A'', ''B'', ''C'']" by (simp add: keys_def)
  moreover from d g have "\<exists>alloc. split ShareSplit 10 ?ws = Inr alloc \<and>
      keys alloc = keys ?ws \<and> sum_list (values_of alloc) = 10"
    by blast
  moreover have "keys ?ws = [''A'', ''B'']" by (simp add: keys_def)
  moreover from x wq sq have "split ExactSplit 50 ?qs = Inr ?qs" by blast
  moreover from y wn en have "\<bar>sum_list (values_of weights_near) - 50\<bar> \<le> 1 / 100 + EPS"
    by blast
  ultimately show ?thesis using sq en nn by simp
qed

text \<open>
  C1, as the claim states it, fails four ways. In the exact mode, weights 20.00 and
  30.01 for an amount of 50.00 pass the validation (they are within \<open>0.01 + EPS\<close> of it)
  and are returned as they are: their sum is 50.01, not 50.00. Still in the exact mode,
  five weights of 0.004 total the amount 0.02 and each is returned rounded, as 0.00: the
  sum is 0.00. In the equal mode, 12.00 among the 3000 participants of \<open>crowd\<close> starts
  from shares of 0.00 and the loop ends at its cap, a thousand cents distributed: the sum
  is 10.00. And an amount that is not a whole number of cents, 2.125 among three, gives
  three shares of 0.71 and a difference that rounds to no cent: the sum is 2.13, where
  the amount rounds to 2.12.
\<close>

theorem split_conservation_counterexample:
  "split ExactSplit 50 weights_near = Inr weights_near \<and>
   sum_list (values_of weights_near) = 5001 / 100 \<and>
   qround (5001 / 100) \<noteq> qround 50 \<and>
   sum_list (values_of weights_mills) = 2 / 100 \<and>
   split ExactSplit (2 / 100) weights_mills =
     Inr [(''a'', 0), (''b'', 0), (''c'', 0), (''d'', 0), (''e'', 0)] \<and>
   sum_list (values_of [(''a'', 0), (''b'', 0), (''c'', 0), (''d'', 0), (''e'', 0 :: rat)]) = 0 \<and>
   qround 0 \<noteq> qround (2 / 100) \<and>
   length crowd = 3000 \<and> distinct (keys crowd) \<and>
   split EqualSplit 12 crowd =
     Inr (zip (keys crowd) (map cents (replicate 1000 1 @ replicate 2000 0))) \<and>
   sum_list (values_of (zip (keys crowd) (map cents (replicate 1000 1 @ replicate 2000 0)))) = 10 \<and>
   qround 10 \<noteq> qround 12 \<and>
   split EqualSplit (17 / 8) [(''A'', 1), (''B'', 1), (''C'', 1)] =
     Inr [(''A'', 71 / 100), (''B'', 71 / 100), (''C'', 71 / 100)] \<and>
   sum_list (values_of [(''A'', 71 / 100), (''B'', 71 / 100), (''C'', 71 / 100 :: rat)]) = 213 / 100 \<and>
   qround (213 / 100) \<noteq> qround (17 / 8)"
proof -
  have "split ExactSplit 50 weights_near = Inr weights_near \<and>
        sum_list (values_of weights_near) = 5001 / 100 \<and>
        qround (5001 / 100) \<noteq> qround 50"
    by code_simp
  moreover have "sum_list (values_of weights_mills) = 2 / 100 \<and>
        split ExactSplit (2 / 100) weights_mills =
          Inr [(''a'', 0), (''b'', 0), (''c'', 0), (''d'', 0), (''e'', 0)] \<and>
        sum_list (values_of [(''a'', 0), (''b'', 0), (''c'', 0), (''d'', 0), (''e'', 0 :: rat)]) = 0 \<and>
        qround 0 \<noteq> qround (2 / 100)"
    by code_simp
  moreover have "split EqualSplit 12 crowd =
        Inr (zip (keys crowd) (map cents (replicate 1000 1 @ replicate 2000 0)))"
    using crowd_capped by (simp add: split_def)
  moreover have "qround 10 \<noteq> qround 12" by code_simp
  moreover have "split EqualSplit (17 / 8) [(''A'', 1), (''B'', 1), (''C'', 1)] =
          Inr [(''A'', 71 / 100), (''B'', 71 / 100), (''C'', 71 / 100)] \<and>
        sum_list (values_of [(''A'', 71 / 100), (''B'', 71 / 100), (''C'', 71 / 100 :: rat)]) = 213 / 100 \<and>
        qround (213 / 100) \<noteq> qround (17 / 8)"
    by code_simp
  ultimately show ?thesis
    using crowd_length crowd_distinct crowd_sum by simp
qed

text \<open>
  C9. Equal split of any amount among any non-empty participants: the largest allocated
  amount exceeds the smallest by at most one cent.
\<close>

theorem EqualSplit_split_fairness:
  "participants \<noteq> [] \<Longrightarrow>
   \<exists>alloc. EqualSplit_split amount participants = Inr alloc \<and> values_of alloc \<noteq> [] \<and>
     Max (set (values_of alloc)) - Min (set (values_of alloc)) \<le> 1 / 100"
proof -
  assume ne: "participants \<noteq> []"
  from EqualSplit_split_shape[OF ne, of amount] obtain s :: int and r j where
    s: "s = 1 \<or> s = - 1" and j: "j \<le> length participants" and
    e: "EqualSplit_split amount participants =
          Inr (zip (keys participants)
                 (map cents (replicate j (r + s) @ replicate (length participants - j) r)))"
    by blast
  let ?vs = "map cents (replicate j (r + s) @ replicate (length participants - j) r)"
  have lk: "length ?vs = length (keys participants)" using j by (simp add: keys_def)
  have v: "values_of (zip (keys participants) ?vs) = ?vs" by (rule values_of_zip[OF lk])
  have vne: "?vs \<noteq> []" using ne lk by (auto simp: keys_def)
  have el: "x = cents (r + s) \<or> x = cents r" if "x \<in> set ?vs" for x
    using that by auto
  have "Max (set ?vs) \<in> set ?vs" "Min (set ?vs) \<in> set ?vs"
    using vne by (simp_all only: Max_in Min_in List.finite_set set_empty[symmetric] simp_thms)
  then have "(Max (set ?vs) = cents (r + s) \<or> Max (set ?vs) = cents r) \<and>
             (Min (set ?vs) = cents (r + s) \<or> Min (set ?vs) = cents r)"
    using el by blast
  moreover have "cents (r + s) - cents r \<le> 1 / 100" "cents r - cents (r + s) \<le> 1 / 100"
    using s by (auto simp: cents_def add_divide_distrib diff_divide_distrib)
  ultimately have "Max (set ?vs) - Min (set ?vs) \<le> 1 / 100"
    by auto
  with e v vne show ?thesis by (intro exI[of _ "zip (keys participants) ?vs"]) simp
qed

theorem EqualSplit_split_fairness_witness:
  "[(''A'', 1), (''B'', 1), (''C'', 1 :: rat)] \<noteq> [] \<and>
   (\<exists>alloc. EqualSplit_split 10 [(''A'', 1), (''B'', 1), (''C'', 1)] = Inr alloc \<and>
      values_of alloc \<noteq> [] \<and>
      Max (set (values_of alloc)) - Min (set (values_of alloc)) \<le> 1 / 100)"
  using EqualSplit_split_fairness[of "[(''A'', 1), (''B'', 1), (''C'', 1)]" 10] by simp


end
